theory Spec2Isabelle
  imports Main
begin

section \<open>Text: Python strings as lists of code points\<close>

text \<open>
  A Python \<open>str\<close> is a sequence of Unicode code points, and \<open>len\<close> counts code points.
  A string is modelled as a list of natural numbers, one per code point. Literals of the
  source are ASCII and are written with \<open>lit\<close>.
\<close>

type_synonym ustr = "nat list"

definition lit :: "string \<Rightarrow> ustr" where
  "lit s = map of_char s"

text \<open>
  The character tables of the Python runtime (\<open>str.isspace\<close>, \<open>str.isalpha\<close>,
  \<open>str.isupper\<close>, the regex classes \<open>\s\<close> and \<open>\d\<close>, \<open>str.lower\<close>) are not part of the
  repository. Their values on the low code points are fixed below; everything beyond is a
  parameter \<open>U\<close> of the model, so that a theorem stated for every \<open>U\<close> holds for whatever
  the Unicode database of the runtime says there.
\<close>

record ucd =
  ext_isspace :: "nat \<Rightarrow> bool"
  ext_isalpha :: "nat \<Rightarrow> bool"
  ext_isupper :: "nat \<Rightarrow> bool"
  ext_isdecimal :: "nat \<Rightarrow> bool"
  ext_lower :: "ustr \<Rightarrow> ustr"

definition isspace :: "ucd \<Rightarrow> nat \<Rightarrow> bool" where
  \<comment> \<open>\<open>str.isspace\<close> on one character, also the regex class \<open>\s\<close> and what \<open>strip()\<close> and
      \<open>split()\<close> remove: below 256 these are TAB..CR, FS..US, SPACE, NEL and NBSP.\<close>
  "isspace U c =
     (if c < 256
      then (9 \<le> c \<and> c \<le> 13) \<or> (28 \<le> c \<and> c \<le> 32) \<or> c = 133 \<or> c = 160
      else ext_isspace U c)"

definition isdecimal :: "ucd \<Rightarrow> nat \<Rightarrow> bool" where
  \<comment> \<open>the regex class \<open>\d\<close> of a \<open>str\<close> pattern: any Unicode decimal digit; below 256 these
      are \<open>0\<close>..\<open>9\<close> only.\<close>
  "isdecimal U c = (if c < 256 then 48 \<le> c \<and> c \<le> 57 else ext_isdecimal U c)"

definition isalpha :: "ucd \<Rightarrow> nat \<Rightarrow> bool" where
  "isalpha U c =
     (if c < 128 then (65 \<le> c \<and> c \<le> 90) \<or> (97 \<le> c \<and> c \<le> 122) else ext_isalpha U c)"

definition isupper :: "ucd \<Rightarrow> nat \<Rightarrow> bool" where
  "isupper U c = (if c < 128 then 65 \<le> c \<and> c \<le> 90 else ext_isupper U c)"

definition ascii_lower :: "nat \<Rightarrow> nat" where
  "ascii_lower c = (if 65 \<le> c \<and> c \<le> 90 then c + 32 else c)"

definition lower :: "ucd \<Rightarrow> ustr \<Rightarrow> ustr" where
  \<comment> \<open>\<open>str.lower()\<close>: character by character on an ASCII string; on other strings it is
      whatever the runtime's case mapping gives (it may even change the length).\<close>
  "lower U s = (if list_all (\<lambda>c. c < 128) s then map ascii_lower s else ext_lower U s)"

subsection \<open>String methods\<close>

definition lstrip :: "ucd \<Rightarrow> ustr \<Rightarrow> ustr" where
  "lstrip U s = dropWhile (isspace U) s"

definition rstrip :: "ucd \<Rightarrow> ustr \<Rightarrow> ustr" where
  "rstrip U s = rev (dropWhile (isspace U) (rev s))"

definition strip :: "ucd \<Rightarrow> ustr \<Rightarrow> ustr" where
  \<comment> \<open>\<open>s.strip()\<close>\<close>
  "strip U s = rstrip U (lstrip U s)"

definition rstrip_chars :: "nat list \<Rightarrow> ustr \<Rightarrow> ustr" where
  \<comment> \<open>\<open>s.rstrip(chars)\<close>\<close>
  "rstrip_chars cs s = rev (dropWhile (\<lambda>c. c \<in> set cs) (rev s))"

fun split_fuel :: "ucd \<Rightarrow> ustr \<Rightarrow> ustr \<Rightarrow> ustr list" where
  "split_fuel U [] s = []"
| "split_fuel U (f # fuel) s =
     (let s' = dropWhile (isspace U) s
      in if s' = [] then []
         else takeWhile (\<lambda>c. \<not> isspace U c) s'
              # split_fuel U fuel (dropWhile (\<lambda>c. \<not> isspace U c) s'))"

definition split :: "ucd \<Rightarrow> ustr \<Rightarrow> ustr list" where
  \<comment> \<open>\<open>s.split()\<close>: the maximal runs of non-whitespace characters. Each word takes at least
      one character, so one round per character of \<open>s\<close> is enough.\<close>
  "split U s = split_fuel U s s"

fun join :: "ustr \<Rightarrow> ustr list \<Rightarrow> ustr" where
  \<comment> \<open>\<open>sep.join(parts)\<close>\<close>
  "join sep [] = []"
| "join sep [p] = p"
| "join sep (p # q # ps) = p @ sep @ join sep (q # ps)"

fun replace2 :: "ustr \<Rightarrow> ustr" where
  \<comment> \<open>\<open>s.replace('  ', ' ')\<close>: non-overlapping occurrences, left to right, in one pass\<close>
  "replace2 (a # b # cs) =
     (if a = 32 \<and> b = 32 then 32 # replace2 cs else a # replace2 (b # cs))"
| "replace2 cs = cs"

definition remove_char :: "nat \<Rightarrow> ustr \<Rightarrow> ustr" where
  \<comment> \<open>\<open>s.replace(c, '')\<close> for a one-character \<open>c\<close>\<close>
  "remove_char c s = filter (\<lambda>x. x \<noteq> c) s"

section \<open>Regular expressions\<close>

text \<open>
  The patterns of the source are matched by Python's backtracking engine. \<open>run r s\<close> lists,
  in the order in which the engine tries them, the remainders of \<open>s\<close> after each way of
  matching \<open>r\<close> at the start of \<open>s\<close>; the engine's answer is the first. A starred group of
  the source always consumes a character, so one round per character of the input bounds
  every repetition: the bound is the input itself, and a round that would not shorten the
  input is not taken.
\<close>

datatype re =
    Cls "nat \<Rightarrow> bool"
  | Seq re re
  | Opt re
  | Star re
  | LazyStar re
  | Eol

fun star_greedy :: "(ustr \<Rightarrow> ustr list) \<Rightarrow> ustr \<Rightarrow> ustr \<Rightarrow> ustr list" where
  "star_greedy f [] s = [s]"
| "star_greedy f (b # bound) s =
     concat (map (star_greedy f bound) (filter (\<lambda>s'. length s' < length s) (f s))) @ [s]"

fun star_lazy :: "(ustr \<Rightarrow> ustr list) \<Rightarrow> ustr \<Rightarrow> ustr \<Rightarrow> ustr list" where
  "star_lazy f [] s = [s]"
| "star_lazy f (b # bound) s =
     s # concat (map (star_lazy f bound) (filter (\<lambda>s'. length s' < length s) (f s)))"

primrec run :: "re \<Rightarrow> ustr \<Rightarrow> ustr list" where
  "run (Cls P) s = (case s of [] \<Rightarrow> [] | c # cs \<Rightarrow> if P c then [cs] else [])"
| "run (Seq a b) s = concat (map (run b) (run a s))"
| "run (Opt a) s = run a s @ [s]"
| "run (Star a) s = star_greedy (run a) s s"
| "run (LazyStar a) s = star_lazy (run a) s s"
| "run Eol s = (if s = [] \<or> s = [10] then [s] else [])"

definition Plus :: "re \<Rightarrow> re" where
  "Plus r = Seq r (Star r)"

definition LazyPlus :: "re \<Rightarrow> re" where
  "LazyPlus r = Seq r (LazyStar r)"

definition Chr :: "nat \<Rightarrow> re" where
  "Chr c = Cls (\<lambda>x. x = c)"

definition consumed :: "ustr \<Rightarrow> ustr \<Rightarrow> ustr" where
  \<comment> \<open>the text matched between a start \<open>s\<close> and the remainder \<open>s'\<close>\<close>
  "consumed s s' = take (length s - length s') s"

definition first_match :: "'a list \<Rightarrow> 'a option" where
  "first_match xs = (case xs of [] \<Rightarrow> None | x # _ \<Rightarrow> Some x)"

section \<open>Block classifier\<close>

text \<open>
  \<open>upper_ratio >= 0.9\<close> divides two integers in floating point. The test is followed by
  \<open>2 <= len(stripped) <= 50\<close>, and with at most 50 letters the rounded quotient is at
  least the double \<open>0.9\<close> exactly when the exact quotient is at least nine tenths, so the
  comparison is written on integers.
\<close>

definition is_running_header :: "ucd \<Rightarrow> ustr \<Rightarrow> bool" where
  "is_running_header U text =
     (let stripped = rstrip_chars (lit ''.'') (strip U text) in
      if stripped = [] then False
      else let alpha_chars = filter (isalpha U) stripped in
           if alpha_chars = [] then False
           else 9 * length alpha_chars \<le> 10 * length (filter (isupper U) alpha_chars)
                \<and> 2 \<le> length stripped \<and> length stripped \<le> 50)"

definition digits_1_4 :: "ucd \<Rightarrow> re" where
  \<comment> \<open>\<open>^\d{1,4}$\<close>\<close>
  "digits_1_4 U =
     Seq (Cls (isdecimal U))
       (Seq (Opt (Seq (Cls (isdecimal U))
               (Opt (Seq (Cls (isdecimal U)) (Opt (Cls (isdecimal U)))))))
          Eol)"

definition is_page_number :: "ucd \<Rightarrow> ustr \<Rightarrow> bool" where
  "is_page_number U text = (run (digits_1_4 U) (strip U text) \<noteq> [])"


section \<open>Term validator\<close>

definition SENTENCE_STARTERS :: "ustr list" where
  "SENTENCE_STARTERS = map lit
    [''the'', ''a'', ''an'', ''in'', ''on'', ''at'', ''by'', ''for'', ''to'', ''of'',
     ''it'', ''its'', ''this'', ''that'', ''these'', ''those'', ''they'', ''them'',
     ''he'', ''she'', ''his'', ''her'', ''we'', ''our'', ''but'', ''and'', ''or'',
     ''if'', ''as'', ''so'', ''yet'', ''nor'', ''not'', ''no'', ''all'', ''any'',
     ''both'', ''each'', ''every'', ''some'', ''such'', ''than'',
     ''one'', ''two'', ''three'', ''four'', ''five'', ''six'', ''seven'', ''eight'',
     ''from'', ''with'', ''into'', ''upon'', ''over'', ''under'', ''through'',
     ''between'', ''among'', ''about'', ''during'', ''before'', ''after'',
     ''since'', ''while'', ''when'', ''where'', ''which'', ''what'', ''who'',
     ''how'', ''there'', ''here'', ''thus'', ''hence'', ''therefore'',
     ''however'', ''moreover'', ''furthermore'', ''nevertheless'',
     ''according'', ''although'', ''because'', ''whether'', ''like'',
     ''many'', ''most'', ''much'', ''more'', ''less'', ''few'', ''other'',
     ''another'', ''only'', ''just'', ''even'', ''still'', ''also'', ''too'']"

definition FRAG_ENDERS :: "ustr list" where
  "FRAG_ENDERS = map lit
    [''the'', ''a'', ''an'', ''of'', ''in'', ''on'', ''at'', ''to'', ''for'', ''by'',
     ''with'', ''from'', ''and'', ''or'', ''but'', ''as'', ''is'', ''was'', ''are'',
     ''were'', ''be'', ''been'', ''being'', ''has'', ''had'', ''have'', ''its'',
     ''his'', ''her'', ''he'', ''she'', ''it'', ''they'', ''we'', ''our'', ''their'',
     ''that'', ''this'', ''those'', ''these'', ''which'', ''who'', ''whom'',
     ''not'', ''no'', ''nor'', ''so'', ''than'', ''if'', ''st'']"

definition FRAG_INTERNALS :: "ustr list" where
  "FRAG_INTERNALS = map lit
    [''the'', ''a'', ''an'', ''is'', ''was'', ''are'', ''were'', ''be'',
     ''that'', ''which'', ''who'', ''whom'', ''has'', ''had'', ''have'',
     ''not'', ''also'', ''been'', ''being'', ''its'', ''his'', ''her'',
     ''their'', ''our'', ''my'', ''your'', ''can'', ''could'', ''would'',
     ''should'', ''will'', ''shall'', ''may'', ''might'', ''must'',
     ''do'', ''does'', ''did'', ''very'', ''just'', ''even'', ''still'']"

definition FRAG_DECISIVE :: "ustr list" where
  \<comment> \<open>the set literal of the last test of \<open>_is_valid_term\<close>\<close>
  "FRAG_DECISIVE = map lit [''the'', ''is'', ''was'', ''are'', ''were'']"

definition is_valid_term :: "ucd \<Rightarrow> ustr \<Rightarrow> bool" where
  \<comment> \<open>\<open>_is_valid_term\<close>\<close>
  "is_valid_term U term0 =
     (let words = split U term0 in
      if words = [] then False
      else let first_word = lower U (hd words); last_word = lower U (last words) in
        if first_word \<in> set SENTENCE_STARTERS then False
        else if last_word \<in> set FRAG_ENDERS then False
        else if length words > 5 then False
        else if length words \<ge> 3 then
          (let internal_words = map (lower U) (tl words);
               internal_frag_count = length (filter (\<lambda>w. w \<in> set FRAG_INTERNALS) internal_words)
           in if internal_frag_count \<ge> 2 then False
              else if list_ex (\<lambda>w. w \<in> set FRAG_DECISIVE) internal_words then False
              else True)
        else True)"

section \<open>Heading detector\<close>

definition az :: "nat \<Rightarrow> bool" where
  "az c = (97 \<le> c \<and> c \<le> 122)"

definition AZ :: "nat \<Rightarrow> bool" where
  "AZ c = (65 \<le> c \<and> c \<le> 90)"

definition ws :: "ucd \<Rightarrow> re" where
  "ws U = Cls (isspace U)"

definition dot :: re where
  \<comment> \<open>\<open>.\<close> without DOTALL: any character but the newline\<close>
  "dot = Cls (\<lambda>c. c \<noteq> 10)"

definition Ss_ee :: re where
  \<comment> \<open>\<open>[Ss]ee\<close>\<close>
  "Ss_ee = Seq (Cls (\<lambda>c. c = 83 \<or> c = 115)) (Seq (Chr 101) (Chr 101))"

definition lower_term :: "ucd \<Rightarrow> re" where
  \<comment> \<open>\<open>[a-z][a-z\s,'\-]+?\<close>, the lazy lowercase word-run that is group 1 of patterns
      1, 1b, 3 and 4\<close>
  "lower_term U =
     Seq (Cls az) (LazyPlus (Cls (\<lambda>c. az c \<or> isspace U c \<or> c = 44 \<or> c = 39 \<or> c = 45)))"

definition match_g1 :: "re \<Rightarrow> re \<Rightarrow> ustr \<Rightarrow> (ustr \<times> ustr) option" where
  \<comment> \<open>\<open>re.match\<close> of a pattern \<open>(A)B\<close>: group 1 and the text after the end of the match\<close>
  "match_g1 A B s =
     first_match (concat (map (\<lambda>s1. map (\<lambda>s2. (consumed s s1, s2)) (run B s1)) (run A s)))"

definition match_g1_g2 :: "re \<Rightarrow> re \<Rightarrow> re \<Rightarrow> ustr \<Rightarrow> (ustr \<times> ustr) option" where
  \<comment> \<open>\<open>re.match\<close> of a pattern \<open>(A)M(G)\<close>: groups 1 and 2\<close>
  "match_g1_g2 A M G s =
     first_match (concat (map (\<lambda>s1. concat (map (\<lambda>s2.
        map (\<lambda>s3. (consumed s s1, consumed s2 s3)) (run G s2)) (run M s1))) (run A s)))"

definition clean_term :: "ucd \<Rightarrow> ustr \<Rightarrow> ustr" where
  \<comment> \<open>\<open>m.group(1).strip().rstrip('.,')\<close>\<close>
  "clean_term U g = rstrip_chars (lit ''.,'') (strip U g)"

definition pattern1 :: "ucd \<Rightarrow> ustr \<Rightarrow> ustr option" where
  \<comment> \<open>\<open>^([a-z][a-z\s,'\-]+?)(?:\s*\([^)]*\))?\s+([A-Z'"].*)\<close>\<close>
  "pattern1 U line =
     (case match_g1_g2 (lower_term U)
             (Seq (Opt (Seq (Star (ws U))
                     (Seq (Chr 40) (Seq (Star (Cls (\<lambda>c. c \<noteq> 41))) (Chr 41)))))
                  (Plus (ws U)))
             (Seq (Cls (\<lambda>c. AZ c \<or> c = 39 \<or> c = 34)) (Star dot)) line of
        None \<Rightarrow> None
      | Some (g1, rest) \<Rightarrow>
          (let term0 = clean_term U g1 in
           if 2 \<le> length term0 \<and> length term0 \<le> 50 \<and> length rest \<ge> 10
              \<and> is_valid_term U term0
           then Some term0 else None))"

definition pattern1b :: "ucd \<Rightarrow> ustr \<Rightarrow> ustr option" where
  \<comment> \<open>\<open>^([a-z][a-z\s,'\-]+?)\s+\(\<close>, then \<open>\([Ss]ee\s\<close> on the line from the parenthesis\<close>
  "pattern1b U line =
     (case match_g1 (lower_term U) (Seq (Plus (ws U)) (Chr 40)) line of
        None \<Rightarrow> None
      | Some (g1, after) \<Rightarrow>
          (let term0 = clean_term U g1;
               m_end = length line - length after;
               paren_content = drop (m_end - 1) line
           in if run (Seq (Chr 40) (Seq Ss_ee (ws U))) paren_content \<noteq> []
              then (if 2 \<le> length term0 \<and> length term0 \<le> 50 \<and> is_valid_term U term0
                    then Some term0 else None)
              else None))"

definition TRIM_LOWER :: "ustr list" where
  "TRIM_LOWER = map lit
    [''the'', ''a'', ''an'', ''in'', ''on'', ''at'', ''as'', ''or'', ''and'',
     ''its'', ''this'', ''that'', ''these'', ''those'', ''all'', ''old'',
     ''one'', ''two'', ''for'', ''but'', ''not'', ''from'', ''with'', ''new'',
     ''first'', ''second'', ''third'', ''last'', ''next'', ''other'',
     ''great'', ''good'', ''long'', ''high'', ''deep'', ''early'', ''late'',
     ''most'', ''many'', ''some'', ''each'', ''every'', ''such'']"

fun trim_rev :: "ucd \<Rightarrow> ustr list \<Rightarrow> ustr list" where
  \<comment> \<open>the \<open>while len(parts) > 1 and parts[-1].lower() in TRIM_LOWER: parts.pop()\<close> loop,
      on the reversed list\<close>
  "trim_rev U (p # q # ps) =
     (if lower U p \<in> set TRIM_LOWER then trim_rev U (q # ps) else p # q # ps)"
| "trim_rev U ps = ps"

definition cap_word :: re where
  \<comment> \<open>\<open>[A-Z][a-z]+\<close>\<close>
  "cap_word = Seq (Cls AZ) (Plus (Cls az))"

definition pattern2 :: "ucd \<Rightarrow> ustr \<Rightarrow> ustr option" where
  \<comment> \<open>\<open>^([A-Z][a-z]+(?:\s+[A-Z][a-z]+)*)\s+([A-Z][a-z].*)\<close>\<close>
  "pattern2 U line =
     (case match_g1_g2 (Seq cap_word (Star (Seq (Plus (ws U)) cap_word)))
             (Plus (ws U))
             (Seq (Cls AZ) (Seq (Cls az) (Star dot))) line of
        None \<Rightarrow> None
      | Some (g1, g2) \<Rightarrow>
          (let raw_term = strip U g1;
               parts = rev (trim_rev U (rev (split U raw_term)));
               term0 = join (lit '' '') parts;
               rest = strip U (drop (length term0) line)
           in if length term0 \<le> 35 \<and> length rest \<ge> 10
                 \<and> \<not> is_running_header U term0 \<and> is_valid_term U term0
              then Some term0 else None))"

definition pattern3 :: "ucd \<Rightarrow> ustr \<Rightarrow> ustr option" where
  \<comment> \<open>\<open>^([a-z][a-z\s,'\-]+?)\s+[Ss]ee\s+\<close>\<close>
  "pattern3 U line =
     (case match_g1 (lower_term U) (Seq (Plus (ws U)) (Seq Ss_ee (Plus (ws U)))) line of
        None \<Rightarrow> None
      | Some (g1, after) \<Rightarrow>
          (let term0 = clean_term U g1 in
           if 2 \<le> length term0 \<and> length term0 \<le> 50 then Some term0 else None))"

definition pattern4 :: "ucd \<Rightarrow> ustr \<Rightarrow> ustr option" where
  \<comment> \<open>\<open>^([a-z][a-z\s,'\-]+?)\s+\([Ss]ee\s+(?:also\s+)?[^)]+\)\<close>\<close>
  "pattern4 U line =
     (case match_g1 (lower_term U)
             (Seq (Plus (ws U)) (Seq (Chr 40) (Seq Ss_ee (Seq (Plus (ws U))
                (Seq (Opt (Seq (Chr 97) (Seq (Chr 108) (Seq (Chr 115) (Seq (Chr 111)
                        (Plus (ws U)))))))
                   (Seq (Plus (Cls (\<lambda>c. c \<noteq> 41))) (Chr 41))))))) line of
        None \<Rightarrow> None
      | Some (g1, after) \<Rightarrow>
          (let term0 = clean_term U g1 in
           if 2 \<le> length term0 \<and> length term0 \<le> 50 then Some term0 else None))"

definition detect_entry_heading :: "ucd \<Rightarrow> ustr \<Rightarrow> ustr option" where
  "detect_entry_heading U first_line =
     (let line = strip U first_line in
      if length line < 5 then None
      else case pattern1 U line of Some t \<Rightarrow> Some t | None \<Rightarrow>
           (case pattern1b U line of Some t \<Rightarrow> Some t | None \<Rightarrow>
           (case pattern2 U line of Some t \<Rightarrow> Some t | None \<Rightarrow>
           (case pattern3 U line of Some t \<Rightarrow> Some t | None \<Rightarrow>
            pattern4 U line))))"


section \<open>Finalization: cleaning and cross-reference test\<close>

fun re_sub_bound :: "re \<Rightarrow> ustr \<Rightarrow> ustr \<Rightarrow> ustr \<Rightarrow> ustr" where
  \<comment> \<open>\<open>re.sub(r, rep, s)\<close> for a pattern that never matches the empty string: scan from the
      left, replace the first (leftmost) match, go on after it\<close>
  "re_sub_bound r rep [] s = s"
| "re_sub_bound r rep (b # bound) s =
     (case s of [] \<Rightarrow> []
      | c # cs \<Rightarrow>
         (case first_match (run r s) of
            None \<Rightarrow> c # re_sub_bound r rep bound cs
          | Some s' \<Rightarrow>
              if length s' < length s then rep @ re_sub_bound r rep bound s'
              else c # re_sub_bound r rep bound cs))"

definition re_sub :: "re \<Rightarrow> ustr \<Rightarrow> ustr \<Rightarrow> ustr" where
  "re_sub r rep s = re_sub_bound r rep s s"

definition clean_definition :: "ucd \<Rightarrow> ustr \<Rightarrow> ustr" where
  "clean_definition U text =
     replace2 (remove_char 173 (remove_char 173
       (strip U (re_sub (Plus (ws U)) (lit '' '') text))))"

definition is_cross_reference :: "ucd \<Rightarrow> ustr \<Rightarrow> bool" where
  "is_cross_reference U definition0 =
     (let d = strip U definition0 in
      if run (Seq Ss_ee (Plus (ws U))) d \<noteq> [] \<and> length d < 120 then True
      else if run (Seq (Chr 40) (Seq Ss_ee (Plus (ws U)))) d \<noteq> [] \<and> length d < 120 then True
      else False)"

section \<open>Entry accumulator\<close>

record block =
  btype :: int
  lines :: "ustr list list"

record entry =
  e_term :: ustr
  e_definition :: ustr
  e_page :: nat
  e_is_cross_ref :: bool

definition line_text :: "ustr list \<Rightarrow> ustr" where
  \<comment> \<open>the concatenation of a line's spans\<close>
  "line_text spans = concat spans"

definition get_block_text :: "block \<Rightarrow> ustr" where
  "get_block_text b = (if btype b \<noteq> 0 then [] else join (lit [CHR 0x0A]) (map line_text (lines b)))"

definition get_block_first_line :: "ucd \<Rightarrow> block \<Rightarrow> ustr" where
  "get_block_first_line U b =
     (if btype b \<noteq> 0 then []
      else case lines b of [] \<Rightarrow> [] | l # _ \<Rightarrow> strip U (line_text l))"

record acc =
  entries :: "entry list"
  current_term :: "ustr option"
  current_definition_lines :: "ustr list"
  current_page :: nat

definition init_acc :: acc where
  "init_acc = \<lparr>entries = [], current_term = None, current_definition_lines = [],
               current_page = 0\<rparr>"

definition save_entry :: "ucd \<Rightarrow> acc \<Rightarrow> entry list" where
  \<comment> \<open>the block \<open>if current_term and current_definition_lines: ...\<close>, which the source has
      twice: before a new entry is opened and after the last block\<close>
  "save_entry U st =
     (case current_term st of
        None \<Rightarrow> entries st
      | Some t \<Rightarrow>
          if t \<noteq> [] \<and> current_definition_lines st \<noteq> [] then
            (let definition0 = clean_definition U (join (lit '' '') (current_definition_lines st))
             in if definition0 \<noteq> [] then
                  entries st @ [\<lparr>e_term = t, e_definition = definition0,
                                 e_page = current_page st + 1,
                                 e_is_cross_ref = is_cross_reference U definition0\<rparr>]
                else entries st)
          else entries st)"

definition keep_line :: "ucd \<Rightarrow> ustr \<Rightarrow> bool" where
  \<comment> \<open>\<open>bl and not is_running_header(bl) and not is_page_number(bl)\<close>\<close>
  "keep_line U bl = (bl \<noteq> [] \<and> \<not> is_running_header U bl \<and> \<not> is_page_number U bl)"

definition detected_term :: "ucd \<Rightarrow> block \<Rightarrow> ustr option" where
  \<comment> \<open>\<open>detect_entry_heading(get_block_first_line(block))\<close>, the value of the variable
      \<open>detected_term\<close> for a block that reaches the detection\<close>
  "detected_term U b = detect_entry_heading U (get_block_first_line U b)"

definition continuation :: "ucd \<Rightarrow> acc \<Rightarrow> block \<Rightarrow> acc" where
  "continuation U st b =
     (if current_term st \<noteq> None
      then st\<lparr>current_definition_lines :=
                current_definition_lines st
                @ filter (keep_line U) (map (\<lambda>l. strip U (line_text l)) (lines b))\<rparr>
      else st)"

definition start_entry :: "ucd \<Rightarrow> nat \<Rightarrow> acc \<Rightarrow> block \<Rightarrow> ustr \<Rightarrow> acc" where
  "start_entry U page_num st b t =
     (let first_line = get_block_first_line U b;
          rest_of_first = strip U (drop (length t) first_line);
          block_lines = map (\<lambda>l. strip U (line_text l)) (lines b);
          def_parts = (if rest_of_first \<noteq> [] then [rest_of_first] else [])
                      @ filter (keep_line U) (tl block_lines)
      in \<lparr>entries = save_entry U st, current_term = Some t,
          current_definition_lines = def_parts, current_page = page_num\<rparr>)"

definition process_block :: "ucd \<Rightarrow> nat \<Rightarrow> acc \<Rightarrow> block \<Rightarrow> acc" where
  \<comment> \<open>one round of the loop over the blocks of page \<open>page_num\<close>\<close>
  "process_block U page_num st b =
     (if btype b \<noteq> 0 then st
      else let full_text = strip U (get_block_text b) in
        if full_text = [] then st
        else let first_line = get_block_first_line U b in
          if first_line = [] then st
          else if is_running_header U full_text then st
          else if is_page_number U (strip U full_text) then st
          else (case detected_term U b of
                  None \<Rightarrow> continuation U st b
                | Some t \<Rightarrow> if t \<noteq> [] then start_entry U page_num st b t
                            else continuation U st b))"

definition DICT_START_PAGE :: nat where
  "DICT_START_PAGE = 8"

definition DICT_END_PAGE :: nat where
  "DICT_END_PAGE = 1804"

definition run_pages :: "ucd \<Rightarrow> block list list \<Rightarrow> acc" where
  \<comment> \<open>the accumulator after the loop over the pages; a document is the list of its pages,
      a page the list of its blocks\<close>
  "run_pages U doc =
     foldl (\<lambda>st page_num. foldl (process_block U page_num) st (doc ! page_num))
       init_acc [DICT_START_PAGE ..< min DICT_END_PAGE (length doc)]"

definition extract_entries :: "ucd \<Rightarrow> block list list \<Rightarrow> entry list" where
  "extract_entries U doc = save_entry U (run_pages U doc)"

section \<open>Post-processor\<close>

text \<open>
  \<open>prev["definition"] += " " + definition\<close> updates in place a dict that the input list
  and \<open>cleaned\<close> share. \<open>extract_entries\<close> builds a new dict for every entry, so no
  two elements of the list are the same object and the update is written on values: the
  round returns the new \<open>cleaned\<close>, the later entries are read as they came in.
\<close>

definition SINGLE_WORD_EXCLUSIONS :: "ustr list" where
  "SINGLE_WORD_EXCLUSIONS = map lit
    [''very'', ''also'', ''just'', ''even'', ''still'', ''yet'', ''only'',
     ''often'', ''always'', ''never'', ''rather'', ''quite'',
     ''traditional'', ''finally'', ''similarly'', ''conversely'',
     ''originally'', ''essentially'', ''generally'', ''consequently'',
     ''alternatively'', ''accordingly'', ''subsequently'', ''nevertheless'',
     ''furthermore'', ''moreover'', ''whereas'', ''whereby'', ''thereby'',
     ''nonetheless'', ''otherwise'', ''indeed'', ''certainly'',
     ''perhaps'', ''probably'', ''possibly'', ''apparently'', ''recently'',
     ''clearly'', ''obviously'', ''simply'', ''merely'', ''purely'',
     ''primarily'', ''mainly'', ''largely'', ''partly'', ''partly'',
     ''already'', ''sometimes'', ''everywhere'', ''anywhere'', ''nowhere'']"

definition endswith_punct :: "ustr \<Rightarrow> bool" where
  \<comment> \<open>\<open>term.endswith(('.', ':', ';'))\<close>\<close>
  "endswith_punct t = (t \<noteq> [] \<and> last t \<in> set (lit ''.:;''))"

definition passes_checks :: "ucd \<Rightarrow> entry \<Rightarrow> bool" where
  \<comment> \<open>an entry for which none of the \<open>continue\<close> statements before the duplicate test runs\<close>
  "passes_checks U e =
     (\<not> length (e_term e) < 2
      \<and> \<not> (length (e_definition e) < 10 \<and> \<not> e_is_cross_ref e)
      \<and> \<not> endswith_punct (e_term e)
      \<and> \<not> length (e_term e) > 60
      \<and> \<not> (length (split U (e_term e)) = 1
           \<and> lower U (e_term e) \<in> set SINGLE_WORD_EXCLUSIONS)
      \<and> is_valid_term U (e_term e))"

fun merge_first :: "ucd \<Rightarrow> ustr \<Rightarrow> ustr \<Rightarrow> entry list \<Rightarrow> entry list" where
  \<comment> \<open>the loop \<open>for prev in reversed(cleaned)\<close> on the reversed list: the first entry with
      the term gets the definition appended, then \<open>break\<close>\<close>
  "merge_first U term_lower definition0 [] = []"
| "merge_first U term_lower definition0 (prev # rest) =
     (if lower U (e_term prev) = term_lower
      then prev\<lparr>e_definition := e_definition prev @ lit '' '' @ definition0\<rparr> # rest
      else prev # merge_first U term_lower definition0 rest)"

definition pp_step :: "ucd \<Rightarrow> entry list \<times> ustr set \<Rightarrow> entry \<Rightarrow> entry list \<times> ustr set" where
  \<comment> \<open>one round of the loop of \<open>post_process_entries\<close> on the pair \<open>(cleaned, seen_terms)\<close>\<close>
  "pp_step U st e =
     (case st of (cleaned, seen_terms) \<Rightarrow>
        if \<not> passes_checks U e then (cleaned, seen_terms)
        else let term_lower = lower U (e_term e) in
          if term_lower \<in> seen_terms
          then (rev (merge_first U term_lower (e_definition e) (rev cleaned)), seen_terms)
          else (cleaned @ [e], insert term_lower seen_terms))"

definition post_process_entries :: "ucd \<Rightarrow> entry list \<Rightarrow> entry list" where
  "post_process_entries U es = fst (foldl (pp_step U) ([], {}) es)"

section \<open>The claims in the words of the specification\<close>

text \<open>
  The predicates of this section are not taken from the source: each one writes down a
  sentence of the specification, to be compared with the function of the source.
\<close>

definition ascii_digits_1_4 :: "ustr \<Rightarrow> bool" where
  \<comment> \<open>"consists of exactly 1 to 4 ASCII digit characters"\<close>
  "ascii_digits_1_4 t = (1 \<le> length t \<and> length t \<le> 4 \<and> list_all (\<lambda>c. 48 \<le> c \<and> c \<le> 57) t)"

definition decimal_digits_1_4 :: "ucd \<Rightarrow> ustr \<Rightarrow> bool" where
  \<comment> \<open>"consists of 1 to 4 decimal digits", in the sense of the class \<open>\d\<close>\<close>
  "decimal_digits_1_4 U t = (1 \<le> length t \<and> length t \<le> 4 \<and> list_all (isdecimal U) t)"

definition upper_fraction_ok :: "ucd \<Rightarrow> ustr \<Rightarrow> bool" where
  \<comment> \<open>"contains at least one alphabetic character, and the fraction of uppercase
      characters among its alphabetic characters is at least 0.9"\<close>
  "upper_fraction_ok U t =
     (filter (isalpha U) t \<noteq> []
      \<and> 9 * length (filter (isalpha U) t)
          \<le> 10 * length (filter (isupper U) (filter (isalpha U) t)))"

definition running_header_spec :: "ucd \<Rightarrow> ustr \<Rightarrow> bool" where
  \<comment> \<open>the running-header test as the specification words it, "stripped" being the text
      without its surrounding whitespace\<close>
  "running_header_spec U t =
     (upper_fraction_ok U t \<and> 2 \<le> length (strip U t) \<and> length (strip U t) \<le> 50)"

definition valid_term_spec :: "ucd \<Rightarrow> ustr \<Rightarrow> bool" where
  \<comment> \<open>the four rules of the term validator, for a term that has a first and a last word\<close>
  "valid_term_spec U t =
     (let words = split U t; internal = map (lower U) (tl words) in
      lower U (hd words) \<notin> set SENTENCE_STARTERS
      \<and> lower U (last words) \<notin> set FRAG_ENDERS
      \<and> length words \<le> 5
      \<and> (length words \<ge> 3 \<longrightarrow>
           length (filter (\<lambda>w. w \<in> set FRAG_INTERNALS) internal) < 2
           \<and> (\<forall>w \<in> set internal. w \<notin> set FRAG_DECISIVE)))"

subsection \<open>The cross-reference test, as the specification words it\<close>

definition begins_ci :: "ucd \<Rightarrow> ustr \<Rightarrow> ustr \<Rightarrow> bool" where
  \<comment> \<open>"begins, case-insensitively, with"\<close>
  "begins_ci U p d = (lower U (take (length p) d) = lower U p)"

definition cross_ref_spec :: "ucd \<Rightarrow> ustr \<Rightarrow> bool" where
  "cross_ref_spec U d =
     ((begins_ci U (lit ''See '') d \<or> begins_ci U (lit ''(see '') d) \<and> length d < 120)"

subsection \<open>Merging of duplicates, as the specification describes it\<close>

text \<open>
  \<open>dedup_merge\<close> keeps the entries in the order of the first occurrence of their
  case-insensitive term and appends to each first occurrence, after one space each, the
  definitions of the later entries with that term, in their order.
\<close>

definition term_key :: "ucd \<Rightarrow> entry \<Rightarrow> ustr" where
  "term_key U e = lower U (e_term e)"

definition append_definitions :: "entry \<Rightarrow> entry list \<Rightarrow> entry" where
  "append_definitions e ds =
     e\<lparr>e_definition := e_definition e @ concat (map (\<lambda>d. lit '' '' @ e_definition d) ds)\<rparr>"

function dedup_merge :: "ucd \<Rightarrow> entry list \<Rightarrow> entry list" where
  "dedup_merge U [] = []"
| "dedup_merge U (e # es) =
     append_definitions e (filter (\<lambda>d. term_key U d = term_key U e) es)
     # dedup_merge U (filter (\<lambda>d. term_key U d \<noteq> term_key U e) es)"
  by pat_completeness auto
termination
  by (relation "measure (\<lambda>(U, es). length es)") (auto simp: less_Suc_eq_le)

subsection \<open>Notions used in the proofs about the post-processor\<close>

definition absorb :: "ucd \<Rightarrow> entry list \<Rightarrow> entry list \<Rightarrow> entry list" where
  "absorb U later cleaned =
     map (\<lambda>c. append_definitions c (filter (\<lambda>d. term_key U d = term_key U c) later)) cleaned"

definition merge_into :: "ucd \<Rightarrow> ustr \<Rightarrow> ustr \<Rightarrow> entry \<Rightarrow> entry" where
  "merge_into U k d c =
     (if term_key U c = k then c\<lparr>e_definition := e_definition c @ lit '' '' @ d\<rparr> else c)"

definition pp_inv :: "ucd \<Rightarrow> entry list \<times> ustr set \<Rightarrow> bool" where
  "pp_inv U st = (snd st = term_key U ` set (fst st) \<and> distinct (map (term_key U) (fst st)))"

subsection \<open>Notions used in the proofs about patterns and the accumulator\<close>

text \<open>
  \<open>re_only Q r\<close>: every character that a match of \<open>r\<close> consumes satisfies \<open>Q\<close>;
  \<open>re_has Q r\<close>: every match of \<open>r\<close> consumes a character that satisfies \<open>Q\<close>. Both are
  read off the pattern. A character is \<open>solid\<close> when cleaning a definition keeps it: it is
  neither whitespace nor the soft hyphen.
\<close>

primrec re_only :: "(nat \<Rightarrow> bool) \<Rightarrow> re \<Rightarrow> bool" where
  "re_only Q (Cls P) = (\<forall>c. P c \<longrightarrow> Q c)"
| "re_only Q (Seq a b) = (re_only Q a \<and> re_only Q b)"
| "re_only Q (Opt a) = re_only Q a"
| "re_only Q (Star a) = re_only Q a"
| "re_only Q (LazyStar a) = re_only Q a"
| "re_only Q Eol = True"

primrec re_has :: "(nat \<Rightarrow> bool) \<Rightarrow> re \<Rightarrow> bool" where
  "re_has Q (Cls P) = (\<forall>c. P c \<longrightarrow> Q c)"
| "re_has Q (Seq a b) = (re_has Q a \<or> re_has Q b)"
| "re_has Q (Opt a) = False"
| "re_has Q (Star a) = False"
| "re_has Q (LazyStar a) = False"
| "re_has Q Eol = False"

definition starts_see :: "ucd \<Rightarrow> ustr \<Rightarrow> bool" where
  "starts_see U t =
     (case t of a # b # c # w # r \<Rightarrow> (a = 83 \<or> a = 115) \<and> b = 101 \<and> c = 101 \<and> isspace U w
      | _ \<Rightarrow> False)"

definition spaces_only :: "ucd \<Rightarrow> ustr \<Rightarrow> bool" where
  "spaces_only U s = (\<forall>c\<in>set s. isspace U c \<longrightarrow> c = 32)"

definition solid :: "ucd \<Rightarrow> nat \<Rightarrow> bool" where
  "solid U c = (\<not> isspace U c \<and> c \<noteq> 173)"

fun single_spaced :: "ucd \<Rightarrow> ustr \<Rightarrow> bool" where
  \<comment> \<open>every whitespace character is a space, and no two of them are adjacent\<close>
  "single_spaced U [] = True"
| "single_spaced U [c] = (isspace U c \<longrightarrow> c = 32)"
| "single_spaced U (a # b # r) =
     ((isspace U a \<longrightarrow> a = 32 \<and> \<not> isspace U b) \<and> single_spaced U (b # r))"

definition reaches_detection :: "ucd \<Rightarrow> block \<Rightarrow> bool" where
  \<comment> \<open>none of the five \<open>continue\<close> statements before the detection runs\<close>
  "reaches_detection U b =
     (btype b = 0 \<and> strip U (get_block_text b) \<noteq> [] \<and> get_block_first_line U b \<noteq> []
      \<and> \<not> is_running_header U (strip U (get_block_text b))
      \<and> \<not> is_page_number U (strip U (strip U (get_block_text b))))"

definition finalized :: "ucd \<Rightarrow> entry \<Rightarrow> bool" where
  "finalized U e =
     (e_is_cross_ref e = is_cross_reference U (e_definition e)
      \<and> spaces_only U (e_definition e))"

definition open_entry_ok :: "ucd \<Rightarrow> acc \<Rightarrow> bool" where
  "open_entry_ok U st =
     (case current_term st of
        None \<Rightarrow> True
      | Some t \<Rightarrow> t \<noteq> [] \<and>
          (case current_definition_lines st of
             [] \<Rightarrow> False
           | l # ls \<Rightarrow> \<exists>c\<in>set l. solid U c))"

subsection \<open>Sample inputs\<close>

definition ucd_sample :: ucd where
  \<comment> \<open>a character table that knows, beyond the fixed low code points, only the
      Arabic-Indic digits U+0660..U+0669, which are decimal digits for \<open>\d\<close>\<close>
  "ucd_sample = \<lparr>ext_isspace = (\<lambda>c. False), ext_isalpha = (\<lambda>c. False),
                 ext_isupper = (\<lambda>c. False),
                 ext_isdecimal = (\<lambda>c. 1632 \<le> c \<and> c \<le> 1641),
                 ext_lower = (\<lambda>s. s)\<rparr>"

definition mandrake_line :: ustr where
  "mandrake_line = lit ''mandrake The mandrake is a fertility symbol and protective charm.''"

definition harvest_line :: ustr where
  "harvest_line = lit ''It was harvested under strict ritual conditions.''"

definition mandrake_block :: block where
  "mandrake_block = \<lparr>btype = 0, lines = [[mandrake_line]]\<rparr>"

definition harvest_block :: block where
  "harvest_block = \<lparr>btype = 0, lines = [[harvest_line]]\<rparr>"

definition mandrake_two_lines :: block where
  \<comment> \<open>the heading line in two spans, followed by a second line\<close>
  "mandrake_two_lines =
     \<lparr>btype = 0, lines = [[lit ''mandrake The mandrake is a fertility '',
                           lit ''symbol and protective charm.''], [harvest_line]]\<rparr>"

definition lotus_entry :: entry where
  "lotus_entry = \<lparr>e_term = lit ''lotus'', e_definition = lit ''The lotus is a symbol of purity.'',
                   e_page = 700, e_is_cross_ref = False\<rparr>"

definition phoenix_entry :: entry where
  "phoenix_entry = \<lparr>e_term = lit ''phoenix'',
                     e_definition = lit ''The phoenix rises from its ashes.'',
                     e_page = 900, e_is_cross_ref = False\<rparr>"

definition phoenix_again :: entry where
  "phoenix_again = \<lparr>e_term = lit ''Phoenix'',
                     e_definition = lit ''It is a sun symbol in Egypt.'',
                     e_page = 1200, e_is_cross_ref = False\<rparr>"

definition phoenix_short :: entry where
  "phoenix_short = \<lparr>e_term = lit ''phoenix'', e_definition = lit ''Short.'',
                     e_page = 1300, e_is_cross_ref = False\<rparr>"

definition mandrake_entry :: entry where
  "mandrake_entry =
     \<lparr>e_term = lit ''mandrake'',
      e_definition = lit ''The mandrake is a fertility symbol and protective charm. It was harvested under strict ritual conditions.'',
      e_page = 9, e_is_cross_ref = False\<rparr>"

definition shouted_see_block :: block where
  "shouted_see_block = \<lparr>btype = 0, lines = [[lit ''aureole SEE halo and nimbus.'']]\<rparr>"

definition aureole_block :: block where
  "aureole_block = \<lparr>btype = 0, lines = [[lit ''aureole See halo.'']]\<rparr>"

definition aureole_entry :: entry where
  "aureole_entry = \<lparr>e_term = lit ''aureole'', e_definition = lit ''See halo.'',
                     e_page = 9, e_is_cross_ref = True\<rparr>"

section \<open>Verification\<close>

subsection \<open>The bounds of the loops are never reached\<close>

text \<open>
  The repetitions of the regular expressions, \<open>split\<close> and \<open>re_sub\<close> count their rounds
  against the input. Any bound at least as long as the input gives the same result, so
  the bound never cuts a loop short.
\<close>

lemma star_greedy_bound:
  "length s \<le> length b1 \<Longrightarrow> length s \<le> length b2 \<Longrightarrow>
   star_greedy f b1 s = star_greedy f b2 s"
proof (induction b1 arbitrary: b2 s)
  case Nil
  then show ?case by (cases b2) simp_all
next
  case (Cons x b1)
  show ?case
  proof (cases b2)
    case Nil
    with Cons.prems show ?thesis by simp
  next
    case b2: (Cons y b2')
    have "map (star_greedy f b1) (filter (\<lambda>s'. length s' < length s) (f s))
            = map (star_greedy f b2') (filter (\<lambda>s'. length s' < length s) (f s))"
    proof (rule map_cong[OF refl])
      fix s'
      assume "s' \<in> set (filter (\<lambda>s'. length s' < length s) (f s))"
      then have "length s' < length s" by simp
      with Cons.prems b2 have "length s' \<le> length b1" "length s' \<le> length b2'" by simp_all
      then show "star_greedy f b1 s' = star_greedy f b2' s'" by (rule Cons.IH)
    qed
    then show ?thesis by (simp only: b2 star_greedy.simps)
  qed
qed

lemma star_lazy_bound:
  "length s \<le> length b1 \<Longrightarrow> length s \<le> length b2 \<Longrightarrow>
   star_lazy f b1 s = star_lazy f b2 s"
proof (induction b1 arbitrary: b2 s)
  case Nil
  then show ?case by (cases b2) simp_all
next
  case (Cons x b1)
  show ?case
  proof (cases b2)
    case Nil
    with Cons.prems show ?thesis by simp
  next
    case b2: (Cons y b2')
    have "map (star_lazy f b1) (filter (\<lambda>s'. length s' < length s) (f s))
            = map (star_lazy f b2') (filter (\<lambda>s'. length s' < length s) (f s))"
    proof (rule map_cong[OF refl])
      fix s'
      assume "s' \<in> set (filter (\<lambda>s'. length s' < length s) (f s))"
      then have "length s' < length s" by simp
      with Cons.prems b2 have "length s' \<le> length b1" "length s' \<le> length b2'" by simp_all
      then show "star_lazy f b1 s' = star_lazy f b2' s'" by (rule Cons.IH)
    qed
    then show ?thesis by (simp only: b2 star_lazy.simps)
  qed
qed

lemma split_fuel_bound:
  "length s \<le> length f1 \<Longrightarrow> length s \<le> length f2 \<Longrightarrow>
   split_fuel U f1 s = split_fuel U f2 s"
proof (induction f1 arbitrary: f2 s)
  case Nil
  then show ?case by (cases f2) (simp_all add: Let_def)
next
  case (Cons x f1)
  show ?case
  proof (cases f2)
    case Nil
    with Cons.prems show ?thesis by (simp add: Let_def)
  next
    case f2: (Cons y f2')
    let ?s' = "dropWhile (isspace U) s"
    let ?r = "dropWhile (\<lambda>c. \<not> isspace U c) ?s'"
    show ?thesis
    proof (cases "?s' = []")
      case True
      with f2 show ?thesis by (simp add: Let_def)
    next
      case False
      then have "\<not> isspace U (hd ?s')" by (rule hd_dropWhile)
      with False have "length ?r < length ?s'"
        by (cases ?s') (simp_all add: le_imp_less_Suc length_dropWhile_le)
      moreover have "length ?s' \<le> length s" by (rule length_dropWhile_le)
      ultimately have "length ?r \<le> length f1" "length ?r \<le> length f2'"
        using Cons.prems f2 by simp_all
      then have "split_fuel U f1 ?r = split_fuel U f2' ?r" by (rule Cons.IH)
      with f2 show ?thesis by (simp add: Let_def)
    qed
  qed
qed

lemma re_sub_bound_enough:
  "length s \<le> length b1 \<Longrightarrow> length s \<le> length b2 \<Longrightarrow>
   re_sub_bound r rep b1 s = re_sub_bound r rep b2 s"
proof (induction b1 arbitrary: b2 s)
  case Nil
  then show ?case by (cases b2) simp_all
next
  case (Cons x b1)
  show ?case
  proof (cases b2)
    case Nil
    with Cons.prems show ?thesis by simp
  next
    case b2: (Cons y b2')
    show ?thesis
    proof (cases s)
      case Nil
      with b2 show ?thesis by simp
    next
      case s: (Cons c cs)
      have tl: "re_sub_bound r rep b1 cs = re_sub_bound r rep b2' cs"
        using Cons.prems b2 s by (intro Cons.IH) simp_all
      show ?thesis
      proof (cases "first_match (run r s)")
        case None
        with b2 s tl show ?thesis by simp
      next
        case (Some s')
        show ?thesis
        proof (cases "length s' < length s")
          case True
          with Cons.prems b2 have "length s' \<le> length b1" "length s' \<le> length b2'"
            by simp_all
          then have "re_sub_bound r rep b1 s' = re_sub_bound r rep b2' s'" by (rule Cons.IH)
          with Some True b2 s show ?thesis by simp
        next
          case False
          with Some b2 s tl show ?thesis by simp
        qed
      qed
    qed
  qed
qed

subsection \<open>Stripping\<close>

lemma rstrip_last: "rstrip U s \<noteq> [] \<Longrightarrow> \<not> isspace U (last (rstrip U s))"
  unfolding rstrip_def by (simp add: last_rev hd_dropWhile)

lemma strip_last: "strip U s \<noteq> [] \<Longrightarrow> \<not> isspace U (last (strip U s))"
  unfolding strip_def by (rule rstrip_last)

lemma isspace_newline: "isspace U 10"
  by (simp add: isspace_def)

lemma filter_dropWhile_disj:
  "(\<And>x. Q x \<Longrightarrow> \<not> P x) \<Longrightarrow> filter P (dropWhile Q xs) = filter P xs"
  by (induction xs) auto

lemma filter_rstrip_disj:
  assumes "\<And>x. Q x \<Longrightarrow> \<not> P x"
  shows "filter P (rev (dropWhile Q (rev xs))) = filter P xs"
proof -
  have "filter P (rev (dropWhile Q (rev xs))) = rev (filter P (dropWhile Q (rev xs)))"
    by (simp add: rev_filter)
  also have "\<dots> = rev (filter P (rev xs))"
    using assms by (simp add: filter_dropWhile_disj)
  also have "\<dots> = filter P xs"
    by (simp add: rev_filter)
  finally show ?thesis .
qed

subsection \<open>Heading detection reads the first line only\<close>

lemma first_line_cong:
  assumes "btype b1 = 0" and "btype b2 = 0"
    and "map line_text (take 1 (lines b1)) = map line_text (take 1 (lines b2))"
  shows "get_block_first_line U b1 = get_block_first_line U b2"
proof (cases "lines b1")
  case Nil
  with assms show ?thesis
    by (cases "lines b2") (simp_all add: get_block_first_line_def)
next
  case (Cons l ls)
  with assms show ?thesis
    by (cases "lines b2") (simp_all add: get_block_first_line_def)
qed

text \<open>
  Claim C1. Two text blocks whose first lines have the same text (the concatenation of the
  first line's spans) give the same detection result, a term or none, whatever their other
  lines hold. \<open>detected_term\<close> is the detection as the loop of \<open>extract_entries\<close> calls it.
\<close>

theorem detection_first_line_only:
  assumes "btype b1 = 0" and "btype b2 = 0"
    and "map line_text (take 1 (lines b1)) = map line_text (take 1 (lines b2))"
  shows "detected_term U b1 = detected_term U b2"
  unfolding detected_term_def using first_line_cong[OF assms] by simp

theorem detection_first_line_only_witness:
  "btype mandrake_block = 0 \<and> btype mandrake_two_lines = 0
   \<and> map line_text (take 1 (lines mandrake_block))
       = map line_text (take 1 (lines mandrake_two_lines))
   \<and> lines mandrake_block \<noteq> lines mandrake_two_lines
   \<and> detected_term ucd_sample mandrake_block = detected_term ucd_sample mandrake_two_lines"
proof -
  have t: "btype mandrake_block = 0" "btype mandrake_two_lines = 0"
    by (simp_all add: mandrake_block_def mandrake_two_lines_def)
  have l: "map line_text (take 1 (lines mandrake_block))
             = map line_text (take 1 (lines mandrake_two_lines))"
    by (simp add: mandrake_block_def mandrake_two_lines_def mandrake_line_def line_text_def
        lit_def)
  have d: "lines mandrake_block \<noteq> lines mandrake_two_lines"
    by (simp add: mandrake_block_def mandrake_two_lines_def)
  show ?thesis
    using t l d detection_first_line_only[OF t l, of ucd_sample] by simp
qed

text \<open>
  The filters before the detection read the whole block. For two blocks that both pass
  them, the first line also decides what the round does to the list of entries, the
  open term and its page; only the buffered lines depend on the other lines.
\<close>

lemma process_block_skipped:
  "\<not> reaches_detection U b \<Longrightarrow> process_block U page_num st b = st"
  by (auto simp add: process_block_def reaches_detection_def Let_def)

lemma first_line_decides_entry:
  assumes "reaches_detection U b1" and "reaches_detection U b2"
    and "map line_text (take 1 (lines b1)) = map line_text (take 1 (lines b2))"
  shows "entries (process_block U page_num st b1) = entries (process_block U page_num st b2)
         \<and> current_term (process_block U page_num st b1)
             = current_term (process_block U page_num st b2)
         \<and> current_page (process_block U page_num st b1)
             = current_page (process_block U page_num st b2)"
proof -
  from assms have t: "btype b1 = 0" "btype b2 = 0"
    by (simp_all add: reaches_detection_def)
  have d: "detected_term U b1 = detected_term U b2"
    unfolding detected_term_def using first_line_cong[OF t assms(3)] by simp
  have p: "\<And>b. reaches_detection U b \<Longrightarrow>
            process_block U page_num st b
              = (case detected_term U b of
                   None \<Rightarrow> continuation U st b
                 | Some t \<Rightarrow> if t \<noteq> [] then start_entry U page_num st b t
                             else continuation U st b)"
    by (simp add: process_block_def reaches_detection_def Let_def)
  show ?thesis
    unfolding p[OF assms(1)] p[OF assms(2)] d
    by (simp add: continuation_def start_entry_def Let_def split: option.splits)
qed

subsection \<open>Page numbers\<close>

lemma run_digits:
  assumes "t \<noteq> [] \<Longrightarrow> last t \<noteq> 10"
  shows "run (digits_1_4 U) t \<noteq> [] \<longleftrightarrow> decimal_digits_1_4 U t"
proof (cases t)
  case Nil
  then show ?thesis by (simp add: digits_1_4_def decimal_digits_1_4_def)
next
  case A: (Cons a t1)
  show ?thesis
  proof (cases t1)
    case Nil
    with A show ?thesis by (simp add: digits_1_4_def decimal_digits_1_4_def)
  next
    case B: (Cons b t2)
    show ?thesis
    proof (cases t2)
      case Nil
      with A B assms show ?thesis by (auto simp add: digits_1_4_def decimal_digits_1_4_def)
    next
      case C: (Cons c t3)
      show ?thesis
      proof (cases t3)
        case Nil
        with A B C assms show ?thesis
          by (auto simp add: digits_1_4_def decimal_digits_1_4_def)
      next
        case D: (Cons d t4)
        show ?thesis
        proof (cases t4)
          case Nil
          with A B C D assms show ?thesis
            by (auto simp add: digits_1_4_def decimal_digits_1_4_def)
        next
          case (Cons e t5)
          with A B C D assms show ?thesis
            by (auto simp add: digits_1_4_def decimal_digits_1_4_def)
        qed
      qed
    qed
  qed
qed

text \<open>
  Claim C7 as stated fails: \<open>\d\<close> in a \<open>str\<close> pattern matches every Unicode decimal digit,
  so the one-character text U+0663 (ARABIC-INDIC DIGIT THREE) is a page number for the
  code although it holds no ASCII digit.
\<close>

theorem page_number_ascii_counterexample:
  "is_page_number ucd_sample [1635] \<and> \<not> ascii_digits_1_4 (strip ucd_sample [1635])"
  by (simp add: is_page_number_def digits_1_4_def strip_def lstrip_def rstrip_def
      isspace_def isdecimal_def ucd_sample_def ascii_digits_1_4_def)

text \<open>
  Claim C7, amended. The page-number test holds exactly when the text without its
  surrounding whitespace consists of 1 to 4 decimal digits in the sense of \<open>\d\<close>
  (the ASCII digits and the other Unicode decimal digits).
\<close>

theorem page_number_iff:
  "is_page_number U tx \<longleftrightarrow> decimal_digits_1_4 U (strip U tx)"
proof -
  have "strip U tx \<noteq> [] \<Longrightarrow> last (strip U tx) \<noteq> 10"
    using strip_last[of U tx] isspace_newline[of U] by metis
  then show ?thesis
    unfolding is_page_number_def by (rule run_digits)
qed

theorem page_number_iff_witness:
  "is_page_number ucd_sample (lit '' 311 '') \<and> \<not> is_page_number ucd_sample (lit ''31159'')"
  using page_number_iff[of ucd_sample "lit '' 311 ''"]
    page_number_iff[of ucd_sample "lit ''31159''"]
  by (simp add: decimal_digits_1_4_def strip_def lstrip_def rstrip_def isspace_def
      isdecimal_def lit_def)

subsection \<open>Running headers\<close>

lemma filter_alpha_stripped:
  assumes "\<forall>c. isspace U c \<longrightarrow> \<not> isalpha U c"
  shows "filter (isalpha U) (rstrip_chars (lit ''.'') (strip U tx)) = filter (isalpha U) tx"
proof -
  have dot: "\<And>x. x \<in> set (lit ''.'') \<Longrightarrow> \<not> isalpha U x"
    by (simp add: lit_def isalpha_def)
  have sp: "\<And>x. isspace U x \<Longrightarrow> \<not> isalpha U x"
    using assms by blast
  have "filter (isalpha U) (rstrip_chars (lit ''.'') (strip U tx))
          = filter (isalpha U) (strip U tx)"
    unfolding rstrip_chars_def using dot by (rule filter_rstrip_disj)
  also have "\<dots> = filter (isalpha U) (lstrip U tx)"
    unfolding strip_def rstrip_def using sp by (rule filter_rstrip_disj)
  also have "\<dots> = filter (isalpha U) tx"
    unfolding lstrip_def using sp by (rule filter_dropWhile_disj)
  finally show ?thesis .
qed

text \<open>
  Claim C6 as stated fails: the length that the code bounds by 2 and 50 is taken after the
  trailing full stops are removed as well. The text \<open>A.\<close> has one letter, uppercase, and
  two characters once stripped, and is no header for the code.
\<close>

theorem running_header_counterexample:
  "running_header_spec ucd_sample (lit ''A.'') \<and> \<not> is_running_header ucd_sample (lit ''A.'')"
  by (simp add: running_header_spec_def upper_fraction_ok_def is_running_header_def lit_def
      rstrip_chars_def strip_def lstrip_def rstrip_def isspace_def isalpha_def isupper_def)

text \<open>
  Claim C6, amended. With a character table in which no whitespace character is a letter,
  the running-header test holds exactly when the text has a letter, at least nine tenths
  of its letters are uppercase, and the text without its surrounding whitespace and then
  without its trailing full stops has 2 to 50 characters. A text without letters is
  never a header.
\<close>

theorem running_header_iff:
  assumes "\<forall>c. isspace U c \<longrightarrow> \<not> isalpha U c"
  shows "(is_running_header U tx \<longleftrightarrow>
            upper_fraction_ok U tx
            \<and> 2 \<le> length (rstrip_chars (lit ''.'') (strip U tx))
            \<and> length (rstrip_chars (lit ''.'') (strip U tx)) \<le> 50)
         \<and> (filter (isalpha U) tx = [] \<longrightarrow> \<not> is_running_header U tx)"
  unfolding is_running_header_def upper_fraction_ok_def Let_def filter_alpha_stripped[OF assms]
  by auto

theorem running_header_iff_witness:
  "is_running_header ucd_sample (lit ''AUTOMOBILE.'')
   \<and> filter (isalpha ucd_sample) (lit ''1904'') = []
   \<and> \<not> is_running_header ucd_sample (lit ''1904'')"
proof -
  have h: "\<forall>c. isspace ucd_sample c \<longrightarrow> \<not> isalpha ucd_sample c"
    by (auto simp: isspace_def isalpha_def ucd_sample_def)
  have a: "upper_fraction_ok ucd_sample (lit ''AUTOMOBILE.'')
           \<and> 2 \<le> length (rstrip_chars (lit ''.'') (strip ucd_sample (lit ''AUTOMOBILE.'')))
           \<and> length (rstrip_chars (lit ''.'') (strip ucd_sample (lit ''AUTOMOBILE.''))) \<le> 50"
    by (simp add: upper_fraction_ok_def lit_def rstrip_chars_def strip_def lstrip_def
        rstrip_def isspace_def isalpha_def isupper_def)
  have b: "filter (isalpha ucd_sample) (lit ''1904'') = []"
    by (simp add: lit_def isalpha_def)
  show ?thesis
    using h a b running_header_iff[OF h, of "lit ''AUTOMOBILE.''"]
      running_header_iff[OF h, of "lit ''1904''"]
    by blast
qed

subsection \<open>Term validator\<close>

text \<open>
  Claim C4. A candidate term, one that has at least one word, is accepted exactly when
  its first word is no sentence starter, its last word no fragment ender, it has at most
  5 words and, from 3 words on, fewer than 2 of the words after the first are fillers and
  none of them is one of the, is, was, are, were (all compared in lower case).
\<close>

theorem valid_term_iff:
  "split U t \<noteq> [] \<Longrightarrow> is_valid_term U t \<longleftrightarrow> valid_term_spec U t"
  unfolding is_valid_term_def valid_term_spec_def Let_def list_ex_iff
  by (cases "5 < length (split U t)"; cases "3 \<le> length (split U t)") auto

theorem valid_term_iff_witness:
  "split ucd_sample (lit ''lapis lazuli stone'') \<noteq> []
   \<and> is_valid_term ucd_sample (lit ''lapis lazuli stone'')
   \<and> split ucd_sample (lit ''pura in the'') \<noteq> []
   \<and> \<not> is_valid_term ucd_sample (lit ''pura in the'')"
proof -
  have h1: "split ucd_sample (lit ''lapis lazuli stone'') \<noteq> []"
    by (simp add: split_def lit_def isspace_def)
  have h2: "split ucd_sample (lit ''pura in the'') \<noteq> []"
    by (simp add: split_def lit_def isspace_def)
  have s1: "valid_term_spec ucd_sample (lit ''lapis lazuli stone'')"
    by code_simp
  have s2: "\<not> valid_term_spec ucd_sample (lit ''pura in the'')"
    by code_simp
  show ?thesis
    using h1 h2 s1 s2 valid_term_iff[OF h1] valid_term_iff[OF h2] by blast
qed

subsection \<open>Cleaning a definition\<close>

text \<open>
  Claim C8 fails on the code. The soft hyphens are removed after the whitespace has been
  normalized and the ends stripped, so a soft hyphen next to a space leaves a space that
  a second run removes: for the text SOFT HYPHEN, SPACE, \<open>a\<close> the first run gives
  SPACE, \<open>a\<close> and the second run \<open>a\<close>.
\<close>

theorem clean_definition_not_idempotent:
  "clean_definition U (173 # lit '' a'') = lit '' a''
   \<and> clean_definition U (clean_definition U (173 # lit '' a'')) = lit ''a''
   \<and> clean_definition U (clean_definition U (173 # lit '' a''))
       \<noteq> clean_definition U (173 # lit '' a'')"
  by (simp add: clean_definition_def re_sub_def Plus_def ws_def isspace_def first_match_def
      strip_def lstrip_def rstrip_def remove_char_def lit_def)

subsection \<open>Post-processor: duplicates are merged into the first occurrence\<close>

lemma term_key_merge_into [simp]: "term_key U (merge_into U k d c) = term_key U c"
  by (simp add: merge_into_def term_key_def)

lemma term_key_comp_merge_into [simp]: "term_key U \<circ> merge_into U k d = term_key U"
  by (rule ext) simp

lemma merge_first_map:
  "distinct (map (term_key U) xs) \<Longrightarrow> merge_first U k d xs = map (merge_into U k d) xs"
proof (induction xs)
  case Nil
  then show ?case by simp
next
  case (Cons p ps)
  show ?case
  proof (cases "term_key U p = k")
    case True
    from Cons.prems have "term_key U p \<notin> term_key U ` set ps" by simp
    with True have "\<forall>c \<in> set ps. term_key U c \<noteq> k" by (metis imageI)
    then have m: "map (merge_into U k d) ps = ps"
      by (simp add: merge_into_def map_idI)
    have h: "merge_into U k d p = p\<lparr>e_definition := e_definition p @ lit '' '' @ d\<rparr>"
      using True by (simp add: merge_into_def)
    have "lower U (e_term p) = k"
      using True by (simp add: term_key_def)
    then show ?thesis by (simp add: m h)
  next
    case False
    with Cons show ?thesis by (simp add: merge_into_def term_key_def)
  qed
qed

lemma rev_merge_first:
  assumes "distinct (map (term_key U) cleaned)"
  shows "rev (merge_first U k d (rev cleaned)) = map (merge_into U k d) cleaned"
proof -
  have "distinct (map (term_key U) (rev cleaned))"
    using assms by (simp add: rev_map[symmetric])
  then show ?thesis by (simp add: merge_first_map rev_map)
qed

lemma pp_step_merge:
  assumes "distinct (map (term_key U) cleaned)" "passes_checks U e" "term_key U e \<in> seen"
  shows "pp_step U (cleaned, seen) e
           = (map (merge_into U (term_key U e) (e_definition e)) cleaned, seen)"
  using assms by (simp add: pp_step_def Let_def rev_merge_first term_key_def[symmetric])

lemma pp_step_accept:
  assumes "passes_checks U e" "term_key U e \<notin> seen"
  shows "pp_step U (cleaned, seen) e = (cleaned @ [e], insert (term_key U e) seen)"
  using assms by (simp add: pp_step_def Let_def term_key_def[symmetric])

lemma pp_step_drop:
  assumes "\<not> passes_checks U e"
  shows "pp_step U (cleaned, seen) e = (cleaned, seen)"
  using assms by (simp add: pp_step_def)

lemma pp_inv_step: "pp_inv U st \<Longrightarrow> pp_inv U (pp_step U st e)"
proof (cases st)
  case (Pair cleaned seen)
  assume inv: "pp_inv U st"
  show ?thesis
  proof (cases "passes_checks U e")
    case False
    with inv Pair show ?thesis by (simp add: pp_step_drop)
  next
    case True
    show ?thesis
    proof (cases "term_key U e \<in> seen")
      case True
      from inv Pair have d: "distinct (map (term_key U) cleaned)" by (simp add: pp_inv_def)
      have "map (term_key U) (map (merge_into U (term_key U e) (e_definition e)) cleaned)
              = map (term_key U) cleaned" by (simp add: comp_def)
      moreover have "term_key U ` set (map (merge_into U (term_key U e) (e_definition e)) cleaned) = term_key U ` set cleaned"
        by (metis calculation set_map)
      ultimately show ?thesis using inv Pair \<open>passes_checks U e\<close> True d
        by (simp add: pp_step_merge pp_inv_def del: set_map)
    next
      case False
      with inv Pair \<open>passes_checks U e\<close> show ?thesis
        by (auto simp add: pp_step_accept pp_inv_def)
    qed
  qed
qed

lemma pp_inv_foldl: "pp_inv U st \<Longrightarrow> pp_inv U (foldl (pp_step U) st es)"
  by (induction es arbitrary: st) (simp_all add: pp_inv_step)

lemma pp_inv_init: "pp_inv U ([], {})"
  by (simp add: pp_inv_def)

lemma append_definitions_nil [simp]: "append_definitions c [] = c"
  by (simp add: append_definitions_def)

lemma absorb_merge:
  "absorb U later (map (merge_into U (term_key U e) (e_definition e)) cleaned)
     = absorb U (e # later) cleaned"
  by (auto simp add: absorb_def merge_into_def append_definitions_def term_key_def)

lemma absorb_other:
  assumes "term_key U e \<notin> term_key U ` set cleaned"
  shows "absorb U (e # later) cleaned = absorb U later cleaned"
  using assms by (auto simp add: absorb_def)

lemma pp_loop:
  assumes "pp_inv U (cleaned, seen)"
  shows "fst (foldl (pp_step U) (cleaned, seen) es)
           = absorb U (filter (passes_checks U) es) cleaned
             @ dedup_merge U (filter (\<lambda>e. term_key U e \<notin> seen) (filter (passes_checks U) es))"
  using assms
proof (induction es arbitrary: cleaned seen)
  case Nil
  then show ?case by (simp add: absorb_def)
next
  case (Cons e es)
  show ?case
  proof (cases "passes_checks U e")
    case False
    with Cons show ?thesis by (simp add: pp_step_drop)
  next
    case pass: True
    show ?thesis
    proof (cases "term_key U e \<in> seen")
      case True
      from Cons.prems have d: "distinct (map (term_key U) cleaned)" by (simp add: pp_inv_def)
      have inv': "pp_inv U (map (merge_into U (term_key U e) (e_definition e)) cleaned, seen)"
        using pp_inv_step[OF Cons.prems, of e] pass True d by (simp add: pp_step_merge)
      show ?thesis
        using Cons.IH[OF inv'] pass True d
        by (simp add: pp_step_merge absorb_merge)
    next
      case False
      have inv': "pp_inv U (cleaned @ [e], insert (term_key U e) seen)"
        using pp_inv_step[OF Cons.prems, of e] pass False by (simp add: pp_step_accept)
      from Cons.prems False have notin: "term_key U e \<notin> term_key U ` set cleaned"
        by (simp add: pp_inv_def)
      let ?P = "filter (passes_checks U) es"
      have f1: "filter (\<lambda>d. term_key U d = term_key U e) (filter (\<lambda>x. term_key U x \<notin> seen) ?P)
                = filter (\<lambda>d. term_key U d = term_key U e) ?P"
        unfolding filter_filter using False by (intro filter_cong) auto
      have f2: "filter (\<lambda>d. term_key U d \<noteq> term_key U e) (filter (\<lambda>x. term_key U x \<notin> seen) ?P)
                = filter (\<lambda>x. term_key U x \<notin> insert (term_key U e) seen) ?P"
        unfolding filter_filter by (intro filter_cong) auto
      have "fst (foldl (pp_step U) (cleaned, seen) (e # es))
              = fst (foldl (pp_step U) (cleaned @ [e], insert (term_key U e) seen) es)"
        using pass False by (simp add: pp_step_accept)
      also have "\<dots> = absorb U ?P (cleaned @ [e])
                       @ dedup_merge U (filter (\<lambda>x. term_key U x \<notin> insert (term_key U e) seen) ?P)"
        by (rule Cons.IH[OF inv'])
      also have "absorb U ?P (cleaned @ [e])
                   = absorb U ?P cleaned
                     @ [append_definitions e (filter (\<lambda>d. term_key U d = term_key U e) ?P)]"
        by (simp add: absorb_def)
      also have "absorb U ?P cleaned = absorb U (e # ?P) cleaned"
        by (rule absorb_other[OF notin, symmetric])
      finally have "fst (foldl (pp_step U) (cleaned, seen) (e # es))
              = absorb U (e # ?P) cleaned
                @ dedup_merge U (e # filter (\<lambda>x. term_key U x \<notin> seen) ?P)"
        by (simp only: dedup_merge.simps f1 f2 append_assoc append_Cons append_Nil)
      moreover have "filter (\<lambda>x. term_key U x \<notin> seen) (filter (passes_checks U) (e # es))
              = e # filter (\<lambda>x. term_key U x \<notin> seen) ?P"
        using pass False by simp
      moreover have "filter (passes_checks U) (e # es) = e # ?P"
        using pass by simp
      ultimately show ?thesis by (simp only:)
    qed
  qed
qed

lemma post_process_eq:
  "post_process_entries U es = dedup_merge U (filter (passes_checks U) es)"
  using pp_loop[OF pp_inv_init, of U es] by (simp add: post_process_entries_def absorb_def)

lemma post_process_distinct:
  "distinct (map (term_key U) (post_process_entries U es))"
  using pp_inv_foldl[OF pp_inv_init, of U es] by (simp add: post_process_entries_def pp_inv_def)

text \<open>
  Claim C3 as stated fails for a later entry that one of the earlier checks drops: a
  second \<open>phoenix\<close> entry whose definition has fewer than 10 characters is not merged into
  the accepted \<open>phoenix\<close> entry, whose definition stays as it was.
\<close>

theorem post_process_short_duplicate_counterexample:
  "post_process_entries ucd_sample [phoenix_entry, phoenix_short] = [phoenix_entry]
   \<and> term_key ucd_sample phoenix_short = term_key ucd_sample phoenix_entry"
  by code_simp

text \<open>
  Claim C3, amended. Among the entries that pass the checks before the duplicate test
  (term of 2 to 60 characters without final punctuation, definition of at least 10
  characters unless a cross-reference, no excluded single word, valid term), the
  post-processor keeps the first entry of each case-insensitive term, in the order of
  these first occurrences, and appends to it, after one space each, the definitions of
  the later ones with that term; no two entries of the result have the same lowercased
  term.
\<close>

theorem post_process_merges_duplicates:
  "post_process_entries U es = dedup_merge U (filter (passes_checks U) es)
   \<and> distinct (map (term_key U) (post_process_entries U es))"
  using post_process_eq post_process_distinct by blast

theorem post_process_merges_duplicates_witness:
  "post_process_entries ucd_sample [lotus_entry, phoenix_entry, phoenix_short, phoenix_again]
     = [lotus_entry,
        phoenix_entry\<lparr>e_definition :=
          lit ''The phoenix rises from its ashes. It is a sun symbol in Egypt.''\<rparr>]"
proof -
  have "dedup_merge ucd_sample (filter (passes_checks ucd_sample)
          [lotus_entry, phoenix_entry, phoenix_short, phoenix_again])
        = [lotus_entry,
           phoenix_entry\<lparr>e_definition :=
             lit ''The phoenix rises from its ashes. It is a sun symbol in Egypt.''\<rparr>]"
    by code_simp
  then show ?thesis
    using post_process_merges_duplicates[of ucd_sample
        "[lotus_entry, phoenix_entry, phoenix_short, phoenix_again]"]
    by simp
qed

text \<open>
  Claim C10. In a state that the loop of the post-processor reaches, a round on an entry
  whose lowercased term has been seen changes one entry of the accepted list, one with
  that lowercased term, and in it only the definition, which gets a space and the
  duplicate's definition appended; the list keeps its length and its other entries, and
  the set of seen terms stays.
\<close>

theorem merge_frame:
  assumes "foldl (pp_step U) ([], {}) es = (cleaned, seen_terms)"
    and "passes_checks U e"
    and "term_key U e \<in> seen_terms"
  shows "\<exists>i < length cleaned.
           term_key U (cleaned ! i) = term_key U e
           \<and> pp_step U (cleaned, seen_terms) e
               = (cleaned[i := (cleaned ! i)\<lparr>e_definition :=
                     e_definition (cleaned ! i) @ lit '' '' @ e_definition e\<rparr>],
                  seen_terms)"
proof -
  have inv: "pp_inv U (cleaned, seen_terms)"
    using pp_inv_foldl[OF pp_inv_init, of U es] assms(1) by simp
  then have d: "distinct (map (term_key U) cleaned)"
    and s: "seen_terms = term_key U ` set cleaned"
    by (simp_all add: pp_inv_def)
  from assms(3) s obtain i where i: "i < length cleaned" "term_key U (cleaned ! i) = term_key U e"
    by (metis imageE in_set_conv_nth)
  have others: "\<And>j. j < length cleaned \<Longrightarrow> j \<noteq> i \<Longrightarrow> term_key U (cleaned ! j) \<noteq> term_key U e"
    using d i by (metis distinct_conv_nth length_map nth_map)
  have "map (merge_into U (term_key U e) (e_definition e)) cleaned
          = cleaned[i := (cleaned ! i)\<lparr>e_definition :=
                e_definition (cleaned ! i) @ lit '' '' @ e_definition e\<rparr>]"
  proof (rule nth_equalityI)
    show "length (map (merge_into U (term_key U e) (e_definition e)) cleaned)
            = length (cleaned[i := (cleaned ! i)\<lparr>e_definition :=
                e_definition (cleaned ! i) @ lit '' '' @ e_definition e\<rparr>])"
      by simp
  next
    fix j
    assume "j < length (map (merge_into U (term_key U e) (e_definition e)) cleaned)"
    then have j: "j < length cleaned" by simp
    show "map (merge_into U (term_key U e) (e_definition e)) cleaned ! j
            = cleaned[i := (cleaned ! i)\<lparr>e_definition :=
                e_definition (cleaned ! i) @ lit '' '' @ e_definition e\<rparr>] ! j"
    proof (cases "j = i")
      case True
      with i j show ?thesis by (simp add: merge_into_def)
    next
      case False
      with others[OF j] j show ?thesis by (simp add: merge_into_def)
    qed
  qed
  with pp_step_merge[OF d assms(2) assms(3)] i show ?thesis by auto
qed

theorem merge_frame_witness:
  "\<exists>i < length [lotus_entry, phoenix_entry].
     term_key ucd_sample ([lotus_entry, phoenix_entry] ! i) = term_key ucd_sample phoenix_again
     \<and> pp_step ucd_sample ([lotus_entry, phoenix_entry], {lit ''lotus'', lit ''phoenix''})
           phoenix_again
         = ([lotus_entry, phoenix_entry][i := ([lotus_entry, phoenix_entry] ! i)\<lparr>e_definition :=
               e_definition ([lotus_entry, phoenix_entry] ! i) @ lit '' ''
                 @ e_definition phoenix_again\<rparr>],
            {lit ''lotus'', lit ''phoenix''})"
proof -
  have h1: "foldl (pp_step ucd_sample) ([], {}) [lotus_entry, phoenix_entry]
              = ([lotus_entry, phoenix_entry], {lit ''lotus'', lit ''phoenix''})"
    by code_simp
  have h2: "passes_checks ucd_sample phoenix_again"
    by code_simp
  have h3: "term_key ucd_sample phoenix_again \<in> {lit ''lotus'', lit ''phoenix''}"
    by code_simp
  show ?thesis
    by (rule merge_frame[OF h1 h2 h3])
qed

subsection \<open>The pipeline on the mandrake example\<close>

lemma run_pages_ninth_page:
  assumes "length front = 8"
  shows "run_pages U (front @ [page]) = foldl (process_block U 8) init_acc page"
proof -
  have "[DICT_START_PAGE ..< min DICT_END_PAGE (length (front @ [page]))] = [8]"
    using assms by (simp add: DICT_START_PAGE_def DICT_END_PAGE_def upt_rec)
  moreover have "(front @ [page]) ! 8 = page"
    using assms by (simp add: nth_append)
  ultimately show ?thesis
    by (simp add: run_pages_def)
qed

lemma mandrake_blocks_processed:
  "post_process_entries U
     (save_entry U (foldl (process_block U 8) init_acc [mandrake_block, harvest_block]))
   = [mandrake_entry]"
  by code_simp

text \<open>
  Claim C2. On a document whose first page read (the ninth, the eight before it are
  skipped) holds the two blocks of the example, heading detection, accumulation,
  finalization and post-processing give exactly one entry: term \<open>mandrake\<close>, the two
  sentences joined by one space as definition, and no cross-reference.
\<close>

theorem mandrake_pipeline:
  assumes "length front = 8"
  shows "post_process_entries U (extract_entries U (front @ [[mandrake_block, harvest_block]]))
           = [mandrake_entry]"
  unfolding extract_entries_def run_pages_ninth_page[OF assms]
  by (rule mandrake_blocks_processed)

theorem mandrake_pipeline_witness:
  "post_process_entries ucd_sample
     (extract_entries ucd_sample (replicate 8 [] @ [[mandrake_block, harvest_block]]))
   = [\<lparr>e_term = lit ''mandrake'',
        e_definition = lit ''The mandrake is a fertility symbol and protective charm. It was harvested under strict ritual conditions.'',
        e_page = 9, e_is_cross_ref = False\<rparr>]"
proof -
  have h: "length (replicate 8 ([] :: block list)) = 8"
    by simp
  show ?thesis
    using mandrake_pipeline[OF h, of ucd_sample] by (simp add: mandrake_entry_def)
qed

subsection \<open>Patterns, cleaning and the accumulator\<close>

lemma star_greedy_only:
  assumes f: "\<And>s s'. s' \<in> set (f s) \<Longrightarrow> \<exists>w. s = w @ s' \<and> (\<forall>c\<in>set w. Q c)"
  shows "s' \<in> set (star_greedy f bound s) \<Longrightarrow> \<exists>w. s = w @ s' \<and> (\<forall>c\<in>set w. Q c)"
proof (induction bound arbitrary: s)
  case Nil
  then show ?case by simp
next
  case (Cons b bound)
  from Cons.prems consider "s' = s"
    | s1 where "s1 \<in> set (f s)" "s' \<in> set (star_greedy f bound s1)"
    by auto
  then show ?case
  proof cases
    case 1
    then show ?thesis by simp
  next
    case 2
    from f[OF 2(1)] obtain w1 where w1: "s = w1 @ s1" "\<forall>c\<in>set w1. Q c" by blast
    from Cons.IH[OF 2(2)] obtain w2 where w2: "s1 = w2 @ s'" "\<forall>c\<in>set w2. Q c" by blast
    from w1 w2 have "s = (w1 @ w2) @ s'" "\<forall>c\<in>set (w1 @ w2). Q c" by auto
    then show ?thesis by blast
  qed
qed

lemma star_lazy_only:
  assumes f: "\<And>s s'. s' \<in> set (f s) \<Longrightarrow> \<exists>w. s = w @ s' \<and> (\<forall>c\<in>set w. Q c)"
  shows "s' \<in> set (star_lazy f bound s) \<Longrightarrow> \<exists>w. s = w @ s' \<and> (\<forall>c\<in>set w. Q c)"
proof (induction bound arbitrary: s)
  case Nil
  then show ?case by simp
next
  case (Cons b bound)
  from Cons.prems consider "s' = s"
    | s1 where "s1 \<in> set (f s)" "s' \<in> set (star_lazy f bound s1)"
    by auto
  then show ?case
  proof cases
    case 1
    then show ?thesis by simp
  next
    case 2
    from f[OF 2(1)] obtain w1 where w1: "s = w1 @ s1" "\<forall>c\<in>set w1. Q c" by blast
    from Cons.IH[OF 2(2)] obtain w2 where w2: "s1 = w2 @ s'" "\<forall>c\<in>set w2. Q c" by blast
    from w1 w2 have "s = (w1 @ w2) @ s'" "\<forall>c\<in>set (w1 @ w2). Q c" by auto
    then show ?thesis by blast
  qed
qed

lemma run_only:
  "re_only Q r \<Longrightarrow> s' \<in> set (run r s) \<Longrightarrow> \<exists>w. s = w @ s' \<and> (\<forall>c\<in>set w. Q c)"
proof (induction r arbitrary: s s')
  case (Cls P)
  then show ?case by (cases s) (auto split: if_splits)
next
  case (Seq a b)
  from Seq.prems obtain s1 where s1: "s1 \<in> set (run a s)" "s' \<in> set (run b s1)" by auto
  from Seq.IH(1)[OF _ s1(1)] Seq.prems(1) obtain w1 where w1: "s = w1 @ s1" "\<forall>c\<in>set w1. Q c"
    by auto
  from Seq.IH(2)[OF _ s1(2)] Seq.prems(1) obtain w2 where w2: "s1 = w2 @ s'" "\<forall>c\<in>set w2. Q c"
    by auto
  from w1 w2 have "s = (w1 @ w2) @ s'" "\<forall>c\<in>set (w1 @ w2). Q c" by auto
  then show ?case by blast
next
  case (Opt a)
  then show ?case by auto
next
  case (Star a)
  have "\<And>s s'. s' \<in> set (run a s) \<Longrightarrow> \<exists>w. s = w @ s' \<and> (\<forall>c\<in>set w. Q c)"
    using Star.IH Star.prems(1) by simp
  from star_greedy_only[of "run a" Q, OF this] Star.prems(2) show ?case by simp
next
  case (LazyStar a)
  have "\<And>s s'. s' \<in> set (run a s) \<Longrightarrow> \<exists>w. s = w @ s' \<and> (\<forall>c\<in>set w. Q c)"
    using LazyStar.IH LazyStar.prems(1) by simp
  from star_lazy_only[of "run a" Q, OF this] LazyStar.prems(2) show ?case by simp
next
  case Eol
  then show ?case by (auto split: if_splits)
qed

lemma re_only_True: "re_only (\<lambda>c. True) r"
  by (induction r) auto

lemma run_suffix: "s' \<in> set (run r s) \<Longrightarrow> \<exists>w. s = w @ s'"
  using run_only[OF re_only_True, of s' r s] by blast

lemma run_has:
  "re_has Q r \<Longrightarrow> s' \<in> set (run r s) \<Longrightarrow> \<exists>w. s = w @ s' \<and> (\<exists>c\<in>set w. Q c)"
proof (induction r arbitrary: s s')
  case (Cls P)
  then show ?case by (cases s) (auto split: if_splits)
next
  case (Seq a b)
  from Seq.prems obtain s1 where s1: "s1 \<in> set (run a s)" "s' \<in> set (run b s1)" by auto
  from run_suffix[OF s1(1)] obtain w1 where w1: "s = w1 @ s1" by blast
  from run_suffix[OF s1(2)] obtain w2 where w2: "s1 = w2 @ s'" by blast
  from Seq.prems(1) consider "re_has Q a" | "re_has Q b" by auto
  then show ?case
  proof cases
    case 1
    from Seq.IH(1)[OF 1 s1(1)] w1 have "\<exists>c\<in>set w1. Q c" by auto
    with w1 w2 have "s = (w1 @ w2) @ s'" "\<exists>c\<in>set (w1 @ w2). Q c" by auto
    then show ?thesis by blast
  next
    case 2
    from Seq.IH(2)[OF 2 s1(2)] w2 have "\<exists>c\<in>set w2. Q c" by auto
    with w1 w2 have "s = (w1 @ w2) @ s'" "\<exists>c\<in>set (w1 @ w2). Q c" by auto
    then show ?thesis by blast
  qed
qed simp_all

lemma star_greedy_nonempty: "star_greedy f bound s \<noteq> []"
  by (cases bound) simp_all

lemma run_Star_nonempty: "run (Star r) s \<noteq> []"
  by (simp add: star_greedy_nonempty)

lemma run_Plus_ws: "run (Plus (ws U)) s \<noteq> [] \<longleftrightarrow> (\<exists>w r. s = w # r \<and> isspace U w)"
  by (cases s) (simp_all add: Plus_def ws_def star_greedy_nonempty)

lemma run_Seq_nonempty: "run (Seq a b) s \<noteq> [] \<longleftrightarrow> (\<exists>s1\<in>set (run a s). run b s1 \<noteq> [])"
  by auto

lemma run_Cls_iff: "s1 \<in> set (run (Cls P) s) \<longleftrightarrow> (\<exists>c. s = c # s1 \<and> P c)"
  by (cases s) auto

lemma run_see: "run (Seq Ss_ee (Plus (ws U))) t \<noteq> [] \<longleftrightarrow> starts_see U t"
  unfolding run_Seq_nonempty Ss_ee_def Chr_def
  by (auto simp add: run_Cls_iff run_Plus_ws starts_see_def split: list.splits)

lemma run_paren_see:
  "run (Seq (Chr 40) (Seq Ss_ee (Plus (ws U)))) t \<noteq> [] \<longleftrightarrow> (\<exists>r. t = 40 # r \<and> starts_see U r)"
proof -
  have "run (Seq (Chr 40) (Seq Ss_ee (Plus (ws U)))) t \<noteq> []
          \<longleftrightarrow> (\<exists>s1\<in>set (run (Chr 40) t). run (Seq Ss_ee (Plus (ws U))) s1 \<noteq> [])"
    by (rule run_Seq_nonempty)
  also have "\<dots> \<longleftrightarrow> (\<exists>s1\<in>set (run (Chr 40) t). starts_see U s1)"
    by (simp only: run_see)
  also have "\<dots> \<longleftrightarrow> (\<exists>r. t = 40 # r \<and> starts_see U r)"
    by (auto simp add: Chr_def run_Cls_iff)
  finally show ?thesis .
qed

lemma is_cross_reference_iff:
  "is_cross_reference U d \<longleftrightarrow>
     (starts_see U (strip U d) \<or> (\<exists>r. strip U d = 40 # r \<and> starts_see U r))
     \<and> length (strip U d) < 120"
  unfolding is_cross_reference_def Let_def run_see run_paren_see by auto

lemma first_match_Some: "first_match xs = Some x \<Longrightarrow> x \<in> set xs"
  by (cases xs) (simp_all add: first_match_def)

lemma first_match_None: "first_match xs = None \<longleftrightarrow> xs = []"
  by (cases xs) (simp_all add: first_match_def)

lemma re_only_Plus_ws: "re_only (isspace U) (Plus (ws U))"
  by (simp add: Plus_def ws_def)

lemma run_Plus_ws_shorter:
  assumes "s' \<in> set (run (Plus (ws U)) s)"
  shows "length s' < length s"
proof -
  from assms obtain s1 where s1: "s1 \<in> set (run (ws U) s)" "s' \<in> set (run (Star (ws U)) s1)"
    by (auto simp add: Plus_def)
  from s1(1) have "length s1 < length s"
    by (cases s) (auto simp add: ws_def split: if_splits)
  moreover from run_suffix[OF s1(2)] have "length s' \<le> length s1" by auto
  ultimately show ?thesis by simp
qed

lemma re_sub_ws_spaces_only:
  "length s \<le> length bound \<Longrightarrow>
   spaces_only U (re_sub_bound (Plus (ws U)) (lit '' '') bound s)"
proof (induction bound arbitrary: s)
  case Nil
  then show ?case by (simp add: spaces_only_def)
next
  case (Cons b bound)
  show ?case
  proof (cases s)
    case Nil
    then show ?thesis by (simp add: spaces_only_def)
  next
    case s: (Cons c cs)
    show ?thesis
    proof (cases "first_match (run (Plus (ws U)) s)")
      case None
      then have "run (Plus (ws U)) (c # cs) = []"
        using s by (simp add: first_match_None)
      then have "\<not> isspace U c"
        using run_Plus_ws[of U "c # cs"] by simp
      moreover have "spaces_only U (re_sub_bound (Plus (ws U)) (lit '' '') bound cs)"
        using Cons.prems s by (intro Cons.IH) simp
      ultimately show ?thesis
        using None s by (simp add: spaces_only_def)
    next
      case (Some s')
      from first_match_Some[OF Some] have lt: "length s' < length s"
        by (rule run_Plus_ws_shorter)
      have "spaces_only U (re_sub_bound (Plus (ws U)) (lit '' '') bound s')"
        using Cons.prems lt by (intro Cons.IH) simp
      then show ?thesis
        using Some s lt by (simp add: spaces_only_def lit_def)
    qed
  qed
qed

lemma re_sub_ws_keeps:
  "c \<in> set s \<Longrightarrow> \<not> isspace U c \<Longrightarrow> c \<in> set (re_sub_bound (Plus (ws U)) rep bound s)"
proof (induction bound arbitrary: s)
  case Nil
  then show ?case by simp
next
  case (Cons b bound)
  show ?case
  proof (cases s)
    case Nil
    with Cons.prems show ?thesis by simp
  next
    case s: (Cons c0 cs)
    show ?thesis
    proof (cases "first_match (run (Plus (ws U)) s)")
      case None
      with Cons s show ?thesis by auto
    next
      case (Some s')
      show ?thesis
      proof (cases "length s' < length s")
        case True
        from run_only[OF re_only_Plus_ws first_match_Some[OF Some]]
        obtain w where w: "s = w @ s'" "\<forall>x\<in>set w. isspace U x" by blast
        with Cons.prems have "c \<in> set s'" by auto
        from Cons.IH[OF this Cons.prems(2)] Some s True show ?thesis by simp
      next
        case False
        with Cons Some s show ?thesis by auto
      qed
    qed
  qed
qed

lemma dropWhile_keeps: "x \<in> set xs \<Longrightarrow> \<not> P x \<Longrightarrow> x \<in> set (dropWhile P xs)"
  by (induction xs) auto

lemma strip_keeps: "c \<in> set s \<Longrightarrow> \<not> isspace U c \<Longrightarrow> c \<in> set (strip U s)"
  unfolding strip_def rstrip_def lstrip_def
  by (simp add: dropWhile_keeps)

lemma strip_subset: "set (strip U s) \<subseteq> set s"
proof
  fix x
  assume "x \<in> set (strip U s)"
  then have "x \<in> set (dropWhile (isspace U) (rev (dropWhile (isspace U) s)))"
    by (simp add: strip_def rstrip_def lstrip_def)
  then have "x \<in> set (rev (dropWhile (isspace U) s))"
    by (rule set_dropWhileD)
  then have "x \<in> set (dropWhile (isspace U) s)"
    by simp
  then show "x \<in> set s"
    by (rule set_dropWhileD)
qed

lemma replace2_subset: "set (replace2 s) \<subseteq> set s"
  by (induction s rule: replace2.induct) auto

lemma replace2_keeps: "c \<in> set s \<Longrightarrow> c \<noteq> 32 \<Longrightarrow> c \<in> set (replace2 s)"
  by (induction s rule: replace2.induct) (auto split: if_splits)

lemma clean_definition_spaces_only: "spaces_only U (clean_definition U s)"
proof -
  have "spaces_only U (re_sub (Plus (ws U)) (lit '' '') s)"
    unfolding re_sub_def by (rule re_sub_ws_spaces_only) simp
  then have "spaces_only U (strip U (re_sub (Plus (ws U)) (lit '' '') s))"
    using strip_subset unfolding spaces_only_def by blast
  then have "spaces_only U (remove_char 173 (remove_char 173
               (strip U (re_sub (Plus (ws U)) (lit '' '') s))))"
    unfolding spaces_only_def remove_char_def by simp
  then show ?thesis
    using replace2_subset unfolding spaces_only_def clean_definition_def by blast
qed

lemma clean_definition_keeps:
  assumes "c \<in> set s" and "solid U c"
  shows "c \<in> set (clean_definition U s)"
proof -
  from assms have ns: "\<not> isspace U c" and nh: "c \<noteq> 173"
    by (simp_all add: solid_def)
  from ns have n32: "c \<noteq> 32"
    by (auto simp add: isspace_def)
  have "c \<in> set (re_sub (Plus (ws U)) (lit '' '') s)"
    unfolding re_sub_def using assms(1) ns by (rule re_sub_ws_keeps)
  then have "c \<in> set (strip U (re_sub (Plus (ws U)) (lit '' '') s))"
    using ns by (rule strip_keeps)
  then have "c \<in> set (remove_char 173 (remove_char 173
               (strip U (re_sub (Plus (ws U)) (lit '' '') s))))"
    using nh by (simp add: remove_char_def)
  then show ?thesis
    unfolding clean_definition_def using n32 by (rule replace2_keeps)
qed

lemma starts_see_take:
  assumes "spaces_only U t"
  shows "starts_see U t \<longleftrightarrow> take 4 t = lit ''See '' \<or> take 4 t = lit ''see ''"
proof (cases t)
  case Nil
  then show ?thesis by (simp add: starts_see_def lit_def)
next
  case A: (Cons a t1)
  show ?thesis
  proof (cases t1)
    case Nil
    with A show ?thesis by (simp add: starts_see_def lit_def)
  next
    case B: (Cons b t2)
    show ?thesis
    proof (cases t2)
      case Nil
      with A B show ?thesis by (simp add: starts_see_def lit_def)
    next
      case C: (Cons c t3)
      show ?thesis
      proof (cases t3)
        case Nil
        with A B C show ?thesis by (simp add: starts_see_def lit_def)
      next
        case (Cons w r)
        with A B C assms have "isspace U w \<longleftrightarrow> w = 32"
          by (auto simp add: spaces_only_def isspace_def)
        with A B C Cons show ?thesis
          by (auto simp add: starts_see_def lit_def)
      qed
    qed
  qed
qed

lemma spaces_only_tl: "spaces_only U (c # r) \<Longrightarrow> spaces_only U r"
  by (simp add: spaces_only_def)

lemma paren_see_take:
  assumes "spaces_only U t"
  shows "(\<exists>r. t = 40 # r \<and> starts_see U r)
           \<longleftrightarrow> take 5 t = lit ''(See '' \<or> take 5 t = lit ''(see ''"
proof (cases t)
  case Nil
  then show ?thesis by (simp add: lit_def)
next
  case (Cons a r)
  with assms have "spaces_only U r" by (auto dest: spaces_only_tl)
  from starts_see_take[OF this] Cons show ?thesis
    by (auto simp add: lit_def)
qed

lemma consumed_append: "consumed (w @ s') s' = w"
  by (simp add: consumed_def)

lemma match_g1_Some:
  assumes "match_g1 A B s = Some (g1, after)"
  shows "\<exists>s1\<in>set (run A s). g1 = consumed s s1 \<and> after \<in> set (run B s1)"
  using first_match_Some[OF assms[unfolded match_g1_def]] by auto

lemma match_g1_g2_Some:
  assumes "match_g1_g2 A M G s = Some (g1, g2)"
  shows "\<exists>s1\<in>set (run A s). g1 = consumed s s1 \<and> (\<exists>s3. s3 \<in> set (run (Seq M G) s1))"
  using first_match_Some[OF assms[unfolded match_g1_g2_def]] by auto

lemma group_tail_solid:
  assumes "s1 \<in> set (run A s)" and "s2 \<in> set (run B s1)" and "re_has (solid U) B"
    and "n \<le> length (consumed s s1)"
  shows "\<exists>c\<in>set (drop n s). solid U c"
proof -
  from run_suffix[OF assms(1)] obtain w1 where w1: "s = w1 @ s1" by blast
  from run_has[OF assms(3) assms(2)] obtain w2 c where w2: "s1 = w2 @ s2" "c \<in> set w2" "solid U c"
    by blast
  from w1 assms(4) have "n \<le> length w1" by (simp add: consumed_append)
  with w1 have "drop n s = drop n w1 @ s1" by simp
  with w2 show ?thesis by auto
qed

lemma length_rstrip_chars: "length (rstrip_chars cs s) \<le> length s"
  unfolding rstrip_chars_def using length_dropWhile_le[of _ "rev s"] by simp

lemma length_strip: "length (strip U s) \<le> length s"
proof -
  have "length (strip U s) \<le> length (dropWhile (isspace U) s)"
    unfolding strip_def rstrip_def lstrip_def
    using length_dropWhile_le[of "isspace U" "rev (dropWhile (isspace U) s)"] by simp
  also have "\<dots> \<le> length s" by (rule length_dropWhile_le)
  finally show ?thesis .
qed

lemma length_clean_term: "length (clean_term U g) \<le> length g"
  unfolding clean_term_def
  using length_rstrip_chars[of "lit ''.,''" "strip U g"] length_strip[of U g] by simp

lemma solid_ascii:
  "solid U 40" "solid U 101" "AZ c \<Longrightarrow> solid U c" "solid U 39" "solid U 34"
  "solid U 83" "solid U 115"
  by (auto simp add: solid_def isspace_def AZ_def)

lemma split_fuel_Nil: "split_fuel U fuel [] = []"
  by (cases fuel) (simp_all add: Let_def)

lemma length_join_split_fuel:
  "length (join (lit '' '') (split_fuel U fuel s)) \<le> length (dropWhile (isspace U) s)"
proof (induction fuel arbitrary: s)
  case Nil
  then show ?case by simp
next
  case (Cons f fuel)
  let ?s' = "dropWhile (isspace U) s"
  show ?case
  proof (cases "?s' = []")
    case True
    then show ?thesis by (simp add: Let_def)
  next
    case False
    let ?w = "takeWhile (\<lambda>c. \<not> isspace U c) ?s'"
    let ?r = "dropWhile (\<lambda>c. \<not> isspace U c) ?s'"
    have split: "split_fuel U (f # fuel) s = ?w # split_fuel U fuel ?r"
      using False by (simp add: Let_def)
    have len: "length ?s' = length ?w + length ?r"
      by (metis length_append takeWhile_dropWhile_id)
    show ?thesis
    proof (cases "split_fuel U fuel ?r")
      case Nil
      with split len show ?thesis by simp
    next
      case (Cons q qs)
      have "?r \<noteq> []"
      proof
        assume "?r = []"
        then have "split_fuel U fuel ?r = []" by (simp only: split_fuel_Nil)
        with Cons show False by simp
      qed
      then obtain x xs where r: "?r = x # xs" by (cases ?r) auto
      then have "isspace U x"
        using hd_dropWhile[of "\<lambda>c. \<not> isspace U c" ?s'] by (metis list.sel(1) list.simps(3))
      with r have "dropWhile (isspace U) ?r = dropWhile (isspace U) xs" by simp
      then have "length (dropWhile (isspace U) ?r) \<le> length xs"
        using length_dropWhile_le[of "isspace U" xs] by simp
      with Cons.IH[of ?r] have "length (join (lit '' '') (split_fuel U fuel ?r)) + 1 \<le> length ?r"
        using r by simp
      with split Cons len show ?thesis by (simp add: lit_def)
    qed
  qed
qed

lemma length_join_split: "length (join (lit '' '') (split U s)) \<le> length s"
proof -
  have "length (join (lit '' '') (split U s)) \<le> length (dropWhile (isspace U) s)"
    unfolding split_def by (rule length_join_split_fuel)
  also have "\<dots> \<le> length s" by (rule length_dropWhile_le)
  finally show ?thesis .
qed

lemma trim_rev_drop: "\<exists>j. trim_rev U xs = drop j xs"
proof (induction xs)
  case Nil
  have "trim_rev U [] = drop 0 []" by simp
  then show ?case by blast
next
  case (Cons p ps)
  show ?case
  proof (cases ps)
    case Nil
    then have "trim_rev U (p # ps) = drop 0 (p # ps)" by simp
    then show ?thesis by blast
  next
    case ps: (Cons q qs)
    show ?thesis
    proof (cases "lower U p \<in> set TRIM_LOWER")
      case True
      from Cons.IH obtain j where "trim_rev U ps = drop j ps" by blast
      with True ps have "trim_rev U (p # ps) = drop (Suc j) (p # ps)" by simp
      then show ?thesis by blast
    next
      case False
      with ps have "trim_rev U (p # ps) = drop 0 (p # ps)" by simp
      then show ?thesis by blast
    qed
  qed
qed

lemma length_join_take: "length (join sep (take k parts)) \<le> length (join sep parts)"
proof (induction sep parts arbitrary: k rule: join.induct)
  case (1 sep)
  then show ?case by simp
next
  case (2 sep p)
  then show ?case by (cases k) simp_all
next
  case (3 sep p q ps)
  show ?case
  proof (cases k)
    case 0
    then show ?thesis by simp
  next
    case (Suc k')
    show ?thesis
    proof (cases k')
      case 0
      with Suc show ?thesis by simp
    next
      case (Suc k'')
      with \<open>k = Suc k'\<close> 3[of k'] show ?thesis by simp
    qed
  qed
qed

lemma length_trimmed_join:
  "length (join (lit '' '') (rev (trim_rev U (rev (split U (strip U g)))))) \<le> length g"
proof -
  obtain j where "trim_rev U (rev (split U (strip U g))) = drop j (rev (split U (strip U g)))"
    using trim_rev_drop by blast
  then have "rev (trim_rev U (rev (split U (strip U g))))
               = take (length (split U (strip U g)) - j) (split U (strip U g))"
    by (simp add: rev_drop)
  then have "length (join (lit '' '') (rev (trim_rev U (rev (split U (strip U g))))))
               \<le> length (join (lit '' '') (split U (strip U g)))"
    by (simp add: length_join_take)
  also have "\<dots> \<le> length (strip U g)" by (rule length_join_split)
  also have "\<dots> \<le> length g" by (rule length_strip)
  finally show ?thesis .
qed

lemma pattern1_solid:
  assumes "pattern1 U line = Some t"
  shows "\<exists>c\<in>set (drop (length t) line). solid U c"
proof -
  let ?M = "Seq (Opt (Seq (Star (ws U))
                 (Seq (Chr 40) (Seq (Star (Cls (\<lambda>c. c \<noteq> 41))) (Chr 41)))))
              (Plus (ws U))"
  let ?G = "Seq (Cls (\<lambda>c. AZ c \<or> c = 39 \<or> c = 34)) (Star dot)"
  from assms obtain g1 rest where m: "match_g1_g2 (lower_term U) ?M ?G line = Some (g1, rest)"
    and t: "t = clean_term U g1"
    by (auto simp add: pattern1_def Let_def split: option.splits if_splits)
  from match_g1_g2_Some[OF m] obtain s1 s3 where s1: "s1 \<in> set (run (lower_term U) line)"
    "g1 = consumed line s1" "s3 \<in> set (run (Seq ?M ?G) s1)" by blast
  have has: "re_has (solid U) (Seq ?M ?G)"
    using solid_ascii by auto
  have "length t \<le> length (consumed line s1)"
    using t s1(2) length_clean_term by simp
  from group_tail_solid[OF s1(1) s1(3) has this] show ?thesis .
qed

lemma pattern1b_solid:
  assumes "pattern1b U line = Some t"
  shows "\<exists>c\<in>set (drop (length t) line). solid U c"
proof -
  let ?B = "Seq (Plus (ws U)) (Chr 40)"
  from assms obtain g1 after where m: "match_g1 (lower_term U) ?B line = Some (g1, after)"
    and t: "t = clean_term U g1"
    by (auto simp add: pattern1b_def Let_def split: option.splits if_splits)
  from match_g1_Some[OF m] obtain s1 where s1: "s1 \<in> set (run (lower_term U) line)"
    "g1 = consumed line s1" "after \<in> set (run ?B s1)" by blast
  have has: "re_has (solid U) ?B"
    using solid_ascii by (simp add: Chr_def)
  have "length t \<le> length (consumed line s1)"
    using t s1(2) length_clean_term by simp
  from group_tail_solid[OF s1(1) s1(3) has this] show ?thesis .
qed

lemma pattern2_solid:
  assumes "pattern2 U line = Some t"
  shows "\<exists>c\<in>set (drop (length t) line). solid U c"
proof -
  let ?A = "Seq cap_word (Star (Seq (Plus (ws U)) cap_word))"
  let ?M = "Plus (ws U)"
  let ?G = "Seq (Cls AZ) (Seq (Cls az) (Star dot))"
  from assms obtain g1 g2 where m: "match_g1_g2 ?A ?M ?G line = Some (g1, g2)"
    and t: "t = join (lit '' '') (rev (trim_rev U (rev (split U (strip U g1)))))"
    by (auto simp add: pattern2_def Let_def split: option.splits if_splits)
  from match_g1_g2_Some[OF m] obtain s1 s3 where s1: "s1 \<in> set (run ?A line)"
    "g1 = consumed line s1" "s3 \<in> set (run (Seq ?M ?G) s1)" by blast
  have has: "re_has (solid U) (Seq ?M ?G)"
    using solid_ascii by auto
  have "length t \<le> length (consumed line s1)"
    using t s1(2) length_trimmed_join by simp
  from group_tail_solid[OF s1(1) s1(3) has this] show ?thesis .
qed

lemma pattern3_solid:
  assumes "pattern3 U line = Some t"
  shows "\<exists>c\<in>set (drop (length t) line). solid U c"
proof -
  let ?B = "Seq (Plus (ws U)) (Seq Ss_ee (Plus (ws U)))"
  from assms obtain g1 after where m: "match_g1 (lower_term U) ?B line = Some (g1, after)"
    and t: "t = clean_term U g1"
    by (auto simp add: pattern3_def Let_def split: option.splits if_splits)
  from match_g1_Some[OF m] obtain s1 where s1: "s1 \<in> set (run (lower_term U) line)"
    "g1 = consumed line s1" "after \<in> set (run ?B s1)" by blast
  have has: "re_has (solid U) ?B"
    using solid_ascii by (auto simp add: Ss_ee_def Chr_def)
  have "length t \<le> length (consumed line s1)"
    using t s1(2) length_clean_term by simp
  from group_tail_solid[OF s1(1) s1(3) has this] show ?thesis .
qed

lemma pattern4_solid:
  assumes "pattern4 U line = Some t"
  shows "\<exists>c\<in>set (drop (length t) line). solid U c"
proof -
  let ?B = "Seq (Plus (ws U)) (Seq (Chr 40) (Seq Ss_ee (Seq (Plus (ws U))
                (Seq (Opt (Seq (Chr 97) (Seq (Chr 108) (Seq (Chr 115) (Seq (Chr 111)
                        (Plus (ws U)))))))
                   (Seq (Plus (Cls (\<lambda>c. c \<noteq> 41))) (Chr 41))))))"
  from assms obtain g1 after where m: "match_g1 (lower_term U) ?B line = Some (g1, after)"
    and t: "t = clean_term U g1"
    by (auto simp add: pattern4_def Let_def split: option.splits if_splits)
  from match_g1_Some[OF m] obtain s1 where s1: "s1 \<in> set (run (lower_term U) line)"
    "g1 = consumed line s1" "after \<in> set (run ?B s1)" by blast
  have "re_has (solid U) (Chr 40)"
    using solid_ascii by (simp add: Chr_def)
  then have has: "re_has (solid U) ?B"
    by simp
  have "length t \<le> length (consumed line s1)"
    using t s1(2) length_clean_term by simp
  from group_tail_solid[OF s1(1) s1(3) has this] show ?thesis .
qed

lemma detect_entry_heading_solid:
  assumes "detect_entry_heading U first_line = Some t"
  shows "\<exists>c\<in>set (drop (length t) (strip U first_line)). solid U c"
proof -
  let ?line = "strip U first_line"
  from assms consider "pattern1 U ?line = Some t" | "pattern1b U ?line = Some t"
    | "pattern2 U ?line = Some t" | "pattern3 U ?line = Some t" | "pattern4 U ?line = Some t"
    by (auto simp add: detect_entry_heading_def Let_def split: if_splits option.splits)
  then show ?thesis
    using pattern1_solid pattern1b_solid pattern2_solid pattern3_solid pattern4_solid
    by cases blast+
qed

lemma dropWhile_idem: "dropWhile P (dropWhile P xs) = dropWhile P xs"
  by (induction xs) auto

lemma rstrip_prefix: "\<exists>ys. xs = rev (dropWhile P (rev xs)) @ ys"
  by (metis rev_append rev_rev_ident takeWhile_dropWhile_id)

lemma dropWhile_fixed_hd:
  assumes "dropWhile P xs = xs" and "xs \<noteq> []"
  shows "\<not> P (hd xs)"
  using hd_dropWhile[of P xs] assms by metis

lemma dropWhile_rstrip:
  assumes "dropWhile P xs = xs"
  shows "dropWhile P (rev (dropWhile P (rev xs))) = rev (dropWhile P (rev xs))"
proof (cases "rev (dropWhile P (rev xs))")
  case Nil
  show ?thesis unfolding Nil by simp
next
  case (Cons y ys)
  from rstrip_prefix[of xs P] obtain zs where "xs = rev (dropWhile P (rev xs)) @ zs" by blast
  with Cons have xs: "xs = y # ys @ zs" by simp
  then have "xs \<noteq> []" and "hd xs = y" by simp_all
  with dropWhile_fixed_hd[OF assms] have "\<not> P y" by simp
  then show ?thesis unfolding Cons by simp
qed

lemma strip_idem: "strip U (strip U s) = strip U s"
proof -
  let ?x = "dropWhile (isspace U) s"
  have a: "dropWhile (isspace U) ?x = ?x" by (rule dropWhile_idem)
  have b: "dropWhile (isspace U) (rev (dropWhile (isspace U) (rev ?x)))
             = rev (dropWhile (isspace U) (rev ?x))"
    by (rule dropWhile_rstrip[OF a])
  show ?thesis
    unfolding strip_def rstrip_def lstrip_def
    by (simp only: b rev_rev_ident dropWhile_idem)
qed

lemma strip_Nil: "strip U [] = []"
  by (simp add: strip_def rstrip_def lstrip_def)

lemma strip_first_line: "strip U (get_block_first_line U b) = get_block_first_line U b"
proof (cases "btype b \<noteq> 0")
  case True
  then show ?thesis by (simp add: get_block_first_line_def strip_Nil)
next
  case False
  then show ?thesis
    by (cases "lines b") (simp_all add: get_block_first_line_def strip_Nil strip_idem)
qed

lemma foldl_invariant:
  assumes "I st" and "\<And>st x. I st \<Longrightarrow> I (f st x)"
  shows "I (foldl f st xs)"
  using assms(1) by (induction xs arbitrary: st) (simp_all add: assms(2))

lemma save_entry_finalized:
  assumes "\<forall>e\<in>set (entries st). finalized U e"
  shows "\<forall>e\<in>set (save_entry U st). finalized U e"
  using assms clean_definition_spaces_only[of U]
  by (auto simp add: save_entry_def Let_def finalized_def split: option.splits)

lemma process_block_finalized:
  assumes "\<forall>e\<in>set (entries st). finalized U e"
  shows "\<forall>e\<in>set (entries (process_block U page_num st b)). finalized U e"
proof -
  have c: "entries (continuation U st b) = entries st"
    by (simp add: continuation_def)
  have s: "\<And>t. entries (start_entry U page_num st b t) = save_entry U st"
    by (simp add: start_entry_def Let_def)
  show ?thesis
    using assms save_entry_finalized[OF assms]
    by (simp add: process_block_def Let_def c s split: option.splits)
qed

lemma run_pages_finalized: "\<forall>e\<in>set (entries (run_pages U doc)). finalized U e"
  unfolding run_pages_def
proof (rule foldl_invariant[where I = "\<lambda>st. \<forall>e\<in>set (entries st). finalized U e"])
  show "\<forall>e\<in>set (entries init_acc). finalized U e"
    by (simp add: init_acc_def)
next
  fix st :: acc and page_num :: nat
  assume "\<forall>e\<in>set (entries st). finalized U e"
  then show "\<forall>e\<in>set (entries (foldl (process_block U page_num) st (doc ! page_num))).
               finalized U e"
    by (rule foldl_invariant) (rule process_block_finalized)
qed

lemma extract_entries_finalized: "e \<in> set (extract_entries U doc) \<Longrightarrow> finalized U e"
  unfolding extract_entries_def
  using save_entry_finalized[OF run_pages_finalized] by blast

text \<open>
  Claim C5 as stated fails: the code looks for \<open>[Ss]ee\<close>, so only the first letter may be
  of either case. The block \<open>aureole SEE halo and nimbus.\<close> gives an entry whose definition
  begins, case-insensitively, with \<open>See\<close> and a space and has 20 characters, and which is
  no cross-reference.
\<close>

theorem cross_ref_counterexample:
  "extract_entries ucd_sample (replicate 8 [] @ [[shouted_see_block]])
     = [\<lparr>e_term = lit ''aureole'', e_definition = lit ''SEE halo and nimbus.'',
          e_page = 9, e_is_cross_ref = False\<rparr>]
   \<and> cross_ref_spec ucd_sample (lit ''SEE halo and nimbus.'')"
  by code_simp

text \<open>
  Claim C5, amended. For every entry that \<open>extract_entries\<close> returns, \<open>is_cross_ref\<close> is
  true exactly when the definition, without surrounding whitespace, begins with \<open>See\<close>,
  \<open>see\<close>, \<open>(See\<close> or \<open>(see\<close> followed by a space and has fewer than 120 characters.
\<close>

theorem cross_ref_iff:
  assumes "e \<in> set (extract_entries U doc)"
  shows "e_is_cross_ref e \<longleftrightarrow>
           (take 4 (strip U (e_definition e)) = lit ''See ''
            \<or> take 4 (strip U (e_definition e)) = lit ''see ''
            \<or> take 5 (strip U (e_definition e)) = lit ''(See ''
            \<or> take 5 (strip U (e_definition e)) = lit ''(see '')
           \<and> length (strip U (e_definition e)) < 120"
proof -
  from extract_entries_finalized[OF assms]
  have x: "e_is_cross_ref e = is_cross_reference U (e_definition e)"
    and sp: "spaces_only U (e_definition e)"
    by (simp_all add: finalized_def)
  from sp have "spaces_only U (strip U (e_definition e))"
    using strip_subset unfolding spaces_only_def by blast
  from starts_see_take[OF this] paren_see_take[OF this] show ?thesis
    unfolding x is_cross_reference_iff by blast
qed

theorem cross_ref_iff_witness:
  "aureole_entry \<in> set (extract_entries ucd_sample (replicate 8 [] @ [[aureole_block]]))
   \<and> e_is_cross_ref aureole_entry
   \<and> take 4 (strip ucd_sample (e_definition aureole_entry)) = lit ''See ''"
proof -
  have h: "aureole_entry \<in> set (extract_entries ucd_sample (replicate 8 [] @ [[aureole_block]]))"
    by code_simp
  have r: "take 4 (strip ucd_sample (e_definition aureole_entry)) = lit ''See ''"
    "length (strip ucd_sample (e_definition aureole_entry)) < 120"
    by code_simp+
  show ?thesis
    using h r cross_ref_iff[OF h] by blast
qed

lemma join_hd: "c \<in> set l \<Longrightarrow> c \<in> set (join sep (l # ls))"
  by (cases ls) simp_all

lemma continuation_open_ok:
  assumes "open_entry_ok U st"
  shows "open_entry_ok U (continuation U st b)"
  using assms
  by (auto simp add: continuation_def open_entry_ok_def split: option.splits list.splits)

lemma start_entry_open_ok:
  assumes "detected_term U b = Some t" and "t \<noteq> []"
  shows "open_entry_ok U (start_entry U page_num st b t)"
proof -
  let ?fl = "get_block_first_line U b"
  from detect_entry_heading_solid[OF assms(1)[unfolded detected_term_def]]
  obtain c where c: "c \<in> set (drop (length t) ?fl)" "solid U c"
    by (auto simp add: strip_first_line)
  then have "c \<in> set (strip U (drop (length t) ?fl))"
    by (simp add: strip_keeps solid_def)
  with c(2) assms(2) show ?thesis
    by (auto simp add: start_entry_def open_entry_ok_def Let_def)
qed

lemma process_block_open_ok:
  assumes "open_entry_ok U st"
  shows "open_entry_ok U (process_block U page_num st b)"
  using assms continuation_open_ok[OF assms] start_entry_open_ok
  by (simp add: process_block_def Let_def split: option.splits)

lemma run_pages_open_ok: "open_entry_ok U (run_pages U doc)"
  unfolding run_pages_def
proof (rule foldl_invariant[where I = "open_entry_ok U"])
  show "open_entry_ok U init_acc"
    by (simp add: init_acc_def open_entry_ok_def)
next
  fix st :: acc and page_num :: nat
  assume "open_entry_ok U st"
  then show "open_entry_ok U (foldl (process_block U page_num) st (doc ! page_num))"
    by (rule foldl_invariant) (rule process_block_open_ok)
qed

text \<open>
  Claim C9. Whenever the loop over the pages ends with an entry open, the result of
  \<open>extract_entries\<close> is the list of the entries finalized so far followed by the open
  entry: its term, the cleaned join of its buffered lines (never empty), the page of its
  heading counted from 1, and the cross-reference test of that definition.
\<close>

theorem open_entry_finalized_at_end:
  assumes "current_term (run_pages U doc) = Some t"
  shows "clean_definition U (join (lit '' '') (current_definition_lines (run_pages U doc))) \<noteq> []
         \<and> extract_entries U doc
             = entries (run_pages U doc)
               @ [\<lparr>e_term = t,
                    e_definition = clean_definition U
                      (join (lit '' '') (current_definition_lines (run_pages U doc))),
                    e_page = current_page (run_pages U doc) + 1,
                    e_is_cross_ref = is_cross_reference U (clean_definition U
                      (join (lit '' '') (current_definition_lines (run_pages U doc))))\<rparr>]"
proof -
  let ?st = "run_pages U doc"
  from run_pages_open_ok[of U doc] assms obtain l ls c where
    t: "t \<noteq> []" and ls: "current_definition_lines ?st = l # ls" and c: "c \<in> set l" "solid U c"
    by (auto simp add: open_entry_ok_def split: list.splits)
  from c(1) have "c \<in> set (join (lit '' '') (current_definition_lines ?st))"
    unfolding ls by (rule join_hd)
  from clean_definition_keeps[OF this c(2)]
  have ne: "clean_definition U (join (lit '' '') (current_definition_lines ?st)) \<noteq> []"
    by auto
  with assms t ls show ?thesis
    by (simp add: extract_entries_def save_entry_def Let_def)
qed

theorem open_entry_finalized_at_end_witness:
  "current_term (run_pages ucd_sample
      (replicate 8 [] @ [[aureole_block, mandrake_block, harvest_block]]))
     = Some (lit ''mandrake'')
   \<and> extract_entries ucd_sample
       (replicate 8 [] @ [[aureole_block, mandrake_block, harvest_block]])
     = [aureole_entry, mandrake_entry]"
proof -
  let ?doc = "replicate 8 [] @ [[aureole_block, mandrake_block, harvest_block]]"
  have st: "run_pages ucd_sample ?doc
              = \<lparr>entries = [aureole_entry], current_term = Some (lit ''mandrake''),
                 current_definition_lines =
                   [lit ''The mandrake is a fertility symbol and protective charm.'',
                    harvest_line],
                 current_page = 8\<rparr>"
    by code_simp
  have h: "current_term (run_pages ucd_sample ?doc) = Some (lit ''mandrake'')"
    by (simp add: st)
  have d: "clean_definition ucd_sample (join (lit '' '')
             [lit ''The mandrake is a fertility symbol and protective charm.'', harvest_line])
           = e_definition mandrake_entry"
    by code_simp
  have x: "is_cross_reference ucd_sample (e_definition mandrake_entry) = False"
    by code_simp
  have m: "\<lparr>e_term = lit ''mandrake'', e_definition = e_definition mandrake_entry,
             e_page = 9, e_is_cross_ref = False\<rparr> = mandrake_entry"
    by (simp add: mandrake_entry_def)
  show ?thesis
    using h open_entry_finalized_at_end[OF h] by (simp add: st d x m del: join.simps)
qed

subsection \<open>Cleaning twice, without soft hyphens\<close>

text \<open>
  The soft hyphen is the only cause of the difference between one run of
  \<open>clean_definition\<close> and two: on a text without it, the whitespace runs become single
  spaces, the ends are stripped, nothing else changes, and a second run changes nothing.
\<close>

lemma star_greedy_first:
  assumes nil: "f [] = []" and cons: "\<And>c cs. f (c # cs) = (if P c then [cs] else [])"
  shows "length s \<le> length bound \<Longrightarrow> \<exists>more. star_greedy f bound s = dropWhile P s # more"
proof (induction bound arbitrary: s)
  case Nil
  then show ?case by simp
next
  case (Cons x bound)
  show ?case
  proof (cases s)
    case Nil
    then show ?thesis by (simp add: nil)
  next
    case s: (Cons c cs)
    show ?thesis
    proof (cases "P c")
      case True
      from Cons.prems s have "length cs \<le> length bound" by simp
      from Cons.IH[OF this] obtain more
        where "star_greedy f bound cs = dropWhile P cs # more" by blast
      with True s show ?thesis by (simp add: cons)
    next
      case False
      with s show ?thesis by (simp add: cons)
    qed
  qed
qed

lemma first_match_Plus_ws:
  assumes "isspace U c"
  shows "first_match (run (Plus (ws U)) (c # cs)) = Some (dropWhile (isspace U) cs)"
proof -
  have "\<exists>more. star_greedy (run (Cls (isspace U))) cs cs = dropWhile (isspace U) cs # more"
    by (rule star_greedy_first) simp_all
  then obtain more
    where "star_greedy (run (Cls (isspace U))) cs cs = dropWhile (isspace U) cs # more"
    by blast
  then have "run (Star (Cls (isspace U))) cs = dropWhile (isspace U) cs # more"
    by (simp only: run.simps)
  moreover have "run (Plus (ws U)) (c # cs) = run (Star (Cls (isspace U))) cs"
    using assms by (simp add: Plus_def ws_def)
  ultimately show ?thesis
    by (simp only: first_match_def list.case)
qed

lemma first_match_Plus_ws_none:
  assumes "\<not> isspace U c"
  shows "first_match (run (Plus (ws U)) (c # cs)) = None"
  using assms by (simp add: Plus_def ws_def first_match_def)

lemma single_spaced_Cons_nonspace:
  "\<not> isspace U c \<Longrightarrow> single_spaced U (c # r) = single_spaced U r"
  by (cases r) simp_all

lemma single_spaced_space_Cons:
  "single_spaced U (32 # r) \<longleftrightarrow> (r = [] \<or> \<not> isspace U (hd r)) \<and> single_spaced U r"
  by (cases r) (auto simp add: isspace_def)

lemma re_sub_ws_single_spaced:
  "length s \<le> length bound \<Longrightarrow>
   single_spaced U (re_sub_bound (Plus (ws U)) (lit '' '') bound s)
   \<and> (s \<noteq> [] \<and> \<not> isspace U (hd s) \<longrightarrow>
        re_sub_bound (Plus (ws U)) (lit '' '') bound s \<noteq> []
        \<and> hd (re_sub_bound (Plus (ws U)) (lit '' '') bound s) = hd s)
   \<and> (s = [] \<longrightarrow> re_sub_bound (Plus (ws U)) (lit '' '') bound s = [])"
proof (induction bound arbitrary: s)
  case Nil
  then show ?case by simp
next
  case (Cons x bound)
  show ?case
  proof (cases s)
    case Nil
    then show ?thesis by simp
  next
    case s: (Cons c cs)
    show ?thesis
    proof (cases "isspace U c")
      case False
      from Cons.prems s have "length cs \<le> length bound" by simp
      from Cons.IH[OF this] first_match_Plus_ws_none[OF False] False s show ?thesis
        by (simp add: single_spaced_Cons_nonspace)
    next
      case True
      let ?r = "dropWhile (isspace U) cs"
      have le: "length ?r \<le> length cs" by (rule length_dropWhile_le)
      with Cons.prems s have "length ?r \<le> length bound" by simp
      note ih = Cons.IH[OF this]
      have eq: "re_sub_bound (Plus (ws U)) (lit '' '') (x # bound) s
                  = 32 # re_sub_bound (Plus (ws U)) (lit '' '') bound ?r"
        using first_match_Plus_ws[OF True] le s by (simp add: lit_def)
      have "?r = [] \<or> \<not> isspace U (hd ?r)"
        using hd_dropWhile[of "isspace U" cs] by blast
      with ih have "single_spaced U (32 # re_sub_bound (Plus (ws U)) (lit '' '') bound ?r)"
        unfolding single_spaced_space_Cons by auto
      with eq True s show ?thesis by simp
    qed
  qed
qed

lemma re_sub_ws_fixed:
  "single_spaced U s \<Longrightarrow> re_sub_bound (Plus (ws U)) (lit '' '') bound s = s"
proof (induction bound arbitrary: s)
  case Nil
  then show ?case by simp
next
  case (Cons x bound)
  show ?case
  proof (cases s)
    case Nil
    then show ?thesis by simp
  next
    case s: (Cons c cs)
    show ?thesis
    proof (cases "isspace U c")
      case False
      with Cons.prems s have "single_spaced U cs"
        by (simp add: single_spaced_Cons_nonspace)
      from Cons.IH[OF this] first_match_Plus_ws_none[OF False] s show ?thesis by simp
    next
      case True
      with Cons.prems s have c: "c = 32" by (cases cs) simp_all
      with Cons.prems s have r: "cs = [] \<or> \<not> isspace U (hd cs)" "single_spaced U cs"
        by (simp_all add: single_spaced_space_Cons)
      from r(1) have d: "dropWhile (isspace U) cs = cs" by (cases cs) auto
      from Cons.IH[OF r(2)] first_match_Plus_ws[OF True, of cs] d s c show ?thesis
        by (simp add: lit_def)
    qed
  qed
qed

lemma single_spaced_tl: "single_spaced U (c # r) \<Longrightarrow> single_spaced U r"
  by (cases r) simp_all

lemma single_spaced_dropWhile: "single_spaced U s \<Longrightarrow> single_spaced U (dropWhile P s)"
  by (induction s) (auto dest: single_spaced_tl)

lemma single_spaced_prefix: "single_spaced U (xs @ ys) \<Longrightarrow> single_spaced U xs"
proof (induction xs)
  case Nil
  then show ?case by simp
next
  case (Cons a xs)
  from Cons.prems have "single_spaced U (xs @ ys)" by (auto dest: single_spaced_tl)
  then have ih: "single_spaced U xs" by (rule Cons.IH)
  show ?case
  proof (cases xs)
    case Nil
    with Cons.prems show ?thesis by (cases ys) simp_all
  next
    case (Cons b xs')
    with Cons.prems ih show ?thesis by simp
  qed
qed

lemma single_spaced_strip:
  assumes "single_spaced U s"
  shows "single_spaced U (strip U s)"
proof -
  let ?x = "dropWhile (isspace U) s"
  let ?p = "rev (dropWhile (isspace U) (rev ?x))"
  from assms have a: "single_spaced U ?x" by (rule single_spaced_dropWhile)
  from rstrip_prefix[of ?x "isspace U"] obtain ys where e: "?x = ?p @ ys" by blast
  have "single_spaced U (?p @ ys)" by (rule subst[where P = "single_spaced U", OF e a])
  then have "single_spaced U ?p" by (rule single_spaced_prefix)
  then show ?thesis by (simp only: strip_def rstrip_def lstrip_def)
qed

lemma replace2_single_spaced: "single_spaced U s \<Longrightarrow> replace2 s = s"
proof (induction s)
  case Nil
  then show ?case by simp
next
  case (Cons a s)
  show ?case
  proof (cases s)
    case Nil
    then show ?thesis by simp
  next
    case s: (Cons b cs)
    have sp: "isspace U 32" by (simp add: isspace_def)
    from Cons.prems s have t: "single_spaced U (b # cs)" and n: "isspace U a \<longrightarrow> \<not> isspace U b"
      by simp_all
    from n sp have "\<not> (a = 32 \<and> b = 32)" by blast
    moreover from Cons.IH t s have "replace2 (b # cs) = b # cs" by simp
    ultimately show ?thesis unfolding s by (simp only: replace2.simps if_False)
  qed
qed

lemma re_sub_bound_chars:
  "set (re_sub_bound r rep bound s) \<subseteq> set s \<union> set rep"
proof (induction bound arbitrary: s)
  case Nil
  then show ?case by simp
next
  case (Cons x bound)
  show ?case
  proof (cases s)
    case Nil
    then show ?thesis by simp
  next
    case s: (Cons c cs)
    show ?thesis
    proof (cases "first_match (run r s)")
      case None
      with s Cons.IH[of cs] show ?thesis by auto
    next
      case (Some s')
      from run_suffix[OF first_match_Some[OF Some]] have "set s' \<subseteq> set s" by auto
      with Some s Cons.IH[of cs] Cons.IH[of s'] show ?thesis by auto
    qed
  qed
qed

lemma clean_definition_without_soft_hyphen:
  assumes "173 \<notin> set s"
  shows "clean_definition U s = strip U (re_sub (Plus (ws U)) (lit '' '') s)"
    and "single_spaced U (clean_definition U s)"
    and "173 \<notin> set (clean_definition U s)"
proof -
  let ?n = "strip U (re_sub (Plus (ws U)) (lit '' '') s)"
  have "set (re_sub (Plus (ws U)) (lit '' '') s) \<subseteq> set s \<union> set (lit '' '')"
    unfolding re_sub_def by (rule re_sub_bound_chars)
  with assms have "173 \<notin> set (re_sub (Plus (ws U)) (lit '' '') s)"
    by (auto simp add: lit_def)
  with strip_subset have no: "173 \<notin> set ?n" by blast
  then have rm: "remove_char 173 ?n = ?n"
    by (auto simp add: remove_char_def filter_id_conv)
  have "single_spaced U (re_sub (Plus (ws U)) (lit '' '') s)"
    unfolding re_sub_def using re_sub_ws_single_spaced[of s s U] by simp
  then have ss: "single_spaced U ?n" by (rule single_spaced_strip)
  show eq: "clean_definition U s = ?n"
    unfolding clean_definition_def rm using ss by (rule replace2_single_spaced)
  show "single_spaced U (clean_definition U s)" using ss eq by simp
  show "173 \<notin> set (clean_definition U s)" using no eq by simp
qed

lemma clean_definition_idempotent_without_soft_hyphen:
  assumes "173 \<notin> set s"
  shows "clean_definition U (clean_definition U s) = clean_definition U s"
proof -
  let ?n = "clean_definition U s"
  note n = clean_definition_without_soft_hyphen[OF assms, of U]
  have "clean_definition U ?n = strip U (re_sub (Plus (ws U)) (lit '' '') ?n)"
    by (rule clean_definition_without_soft_hyphen(1)[OF n(3)])
  also have "re_sub (Plus (ws U)) (lit '' '') ?n = ?n"
    unfolding re_sub_def using n(2) by (rule re_sub_ws_fixed)
  also have "strip U ?n = ?n"
    unfolding n(1) by (rule strip_idem)
  finally show ?thesis .
qed

end
